theory Spec2Isabelle
  imports Main "HOL-Library.Word"
begin

section \<open>Values of the messaging platform\<close>

text \<open>
  The bot reads Telegram updates. A chat object carries an optional public handle
  (\<open>username\<close>), a numeric identifier, a display title and a type; any of them can be
  missing from the JSON, and the chat itself can be absent (\<open>null\<close> or \<open>undefined\<close>),
  which is \<open>None\<close> here. Identifiers are JavaScript numbers holding integers; handles and
  URLs are ASCII text and are modelled as \<open>string\<close>. Text that users write (message text,
  captions, titles) is a \<open>jsstring\<close>: a JavaScript string is a sequence of 16-bit code
  units, and \<open>length\<close>, \<open>slice\<close> and the regular expressions of the program (none has the
  \<open>u\<close> flag) all work on code units.
\<close>

type_synonym jschar = "16 word"
type_synonym jsstring = "jschar list"

datatype chat_type = Private | Group | Supergroup | Channel

record chat =
  chat_kind :: "chat_type option"
  username :: "string option"
  chat_id :: "int option"
  title :: "jsstring option"

text \<open>
  What the program throws and catches are \<open>Error\<close> objects: the gateway client rejects
  with an error carrying the platform's \<open>response\<close> (\<open>error_code\<close>, \<open>description\<close>), the
  network and the store with a plain error that has only a message.

  A property read on \<open>null\<close> raises a \<open>TypeError\<close> in JavaScript, while the optional
  chain \<open>chat?.username\<close> yields \<open>undefined\<close>. Both ways of reading are kept apart, so
  that a function that cannot raise is one that never returns \<open>Inl\<close>.
\<close>

record api_response =
  error_code :: "int option"
  description :: "string option"

record js_error =
  response :: "api_response option"
  err_message :: string

definition TypeError :: js_error where
  "TypeError = \<lparr>response = None, err_message = ''TypeError''\<rparr>"

definition read_prop :: "('o \<Rightarrow> 'v option) \<Rightarrow> 'o option \<Rightarrow> js_error + 'v option" where
  "read_prop field obj = (case obj of None \<Rightarrow> Inl TypeError | Some ob \<Rightarrow> Inr (field ob))"

definition read_opt :: "('o \<Rightarrow> 'v option) \<Rightarrow> 'o option \<Rightarrow> 'v option" where
  "read_opt field obj = (case obj of None \<Rightarrow> None | Some ob \<Rightarrow> field ob)"

subsection \<open>Rendering numbers\<close>

text \<open>
  \<open>String(n)\<close> and a template literal render an integer in decimal, with a leading
  minus sign when negative. This is exact for the integers a JavaScript number holds
  exactly, those of magnitude up to \<open>2^53\<close>, which covers every identifier the platform
  issues.
\<close>

definition digit_char :: "nat \<Rightarrow> char" where
  "digit_char d = ''0123456789'' ! (d mod 10)"

fun String_nat :: "nat \<Rightarrow> string" where
  "String_nat n = (if n < 10 then [digit_char n] else String_nat (n div 10) @ [digit_char n])"

declare String_nat.simps [simp del]

definition String_int :: "int \<Rightarrow> string" where
  "String_int i = (if i < 0 then CHR ''-'' # String_nat (nat (- i)) else String_nat (nat i))"

subsection \<open>The link resolver\<close>

text \<open>
  \<open>buildLink\<close> of \<open>api/telegram.js\<close>:
  \<^verbatim>\<open>
  if (chat?.username) return `https://t.me/${chat.username}/${messageId}`;
  const idStr = String(chat?.id || '');
  if (idStr.startsWith('-100')) return `https://t.me/c/${idStr.slice(4)}/${messageId}`;
  return null;
  \<close>
  A handle is truthy when it is present and not the empty string; \<open>chat?.id || ''\<close> is
  the empty string when the identifier is missing or zero.
\<close>

definition template_str :: "string option \<Rightarrow> string" where
  \<comment> \<open>how a template literal renders a string-valued property: \<open>undefined\<close> prints as that word\<close>
  "template_str s = (case s of None \<Rightarrow> ''undefined'' | Some t \<Rightarrow> t)"

definition truthy_str :: "string option \<Rightarrow> bool" where
  "truthy_str s = (case s of None \<Rightarrow> False | Some t \<Rightarrow> t \<noteq> [])"

definition id_or_empty :: "int option \<Rightarrow> string" where
  "id_or_empty i = (case i of None \<Rightarrow> [] | Some n \<Rightarrow> if n = 0 then [] else String_int n)"

definition startsWith :: "string \<Rightarrow> string \<Rightarrow> bool" where
  "startsWith s p = (take (length p) s = p)"

definition buildLink :: "chat option \<Rightarrow> int \<Rightarrow> js_error + string option" where
  "buildLink c messageId =
     (if truthy_str (read_opt username c)
      then (case read_prop username c of
              Inl e \<Rightarrow> Inl e
            | Inr u \<Rightarrow> Inr (Some (''https://t.me/'' @ template_str u @ ''/'' @ String_int messageId)))
      else let idStr = id_or_empty (read_opt chat_id c)
           in if startsWith idStr ''-100''
              then Inr (Some (''https://t.me/c/'' @ drop 4 idStr @ ''/'' @ String_int messageId))
              else Inr None)"

text \<open>
  \<open>buildMessageLink\<close> of \<open>index.js\<close> guards against an absent chat first and then reads
  the properties directly.
\<close>

definition buildMessageLink :: "chat option \<Rightarrow> int \<Rightarrow> js_error + string option" where
  "buildMessageLink c messageId =
     (if c = None then Inr None
      else case read_prop username c of
             Inl e \<Rightarrow> Inl e
           | Inr u \<Rightarrow>
               if truthy_str u
               then Inr (Some (''https://t.me/'' @ template_str u @ ''/'' @ String_int messageId))
               else (case read_prop chat_id c of
                       Inl e \<Rightarrow> Inl e
                     | Inr i \<Rightarrow>
                         let idStr = id_or_empty i
                         in if startsWith idStr ''-100''
                            then Inr (Some (''https://t.me/c/'' @ drop 4 idStr @ ''/''
                                            @ String_int messageId))
                            else Inr None))"

section \<open>Message text\<close>

definition is_space :: "jschar \<Rightarrow> bool" where
  \<comment> \<open>the class \<open>\s\<close>, which is also what \<open>trim\<close> strips: white space and line terminators\<close>
  "is_space c =
     (c = 0x9 \<or> c = 0xA \<or> c = 0xB \<or> c = 0xC \<or> c = 0xD \<or> c = 0x20 \<or> c = 0xA0
      \<or> c = 0x1680 \<or> (0x2000 \<le> c \<and> c \<le> 0x200A) \<or> c = 0x2028 \<or> c = 0x2029
      \<or> c = 0x202F \<or> c = 0x205F \<or> c = 0x3000 \<or> c = 0xFEFF)"

definition is_word :: "jschar \<Rightarrow> bool" where
  \<comment> \<open>the class \<open>\w\<close>: \<open>[A-Za-z0-9_]\<close>\<close>
  "is_word c =
     ((0x41 \<le> c \<and> c \<le> 0x5A) \<or> (0x61 \<le> c \<and> c \<le> 0x7A) \<or> (0x30 \<le> c \<and> c \<le> 0x39)
      \<or> c = 0x5F)"

definition trim :: "jsstring \<Rightarrow> jsstring" where
  "trim s = rev (dropWhile is_space (rev (dropWhile is_space s)))"

record message =
  message_id :: int
  msg_text :: "jsstring option"
  caption :: "jsstring option"

definition or_else :: "jsstring option \<Rightarrow> jsstring \<Rightarrow> jsstring" where
  \<comment> \<open>\<open>a || b\<close> on a string-valued property: \<open>undefined\<close> and the empty string are falsy\<close>
  "or_else a b = (case a of None \<Rightarrow> b | Some t \<Rightarrow> if t = [] then b else t)"

definition raw_text :: "message option \<Rightarrow> jsstring" where
  "raw_text msg = or_else (read_opt msg_text msg) (or_else (read_opt caption msg) [])"

definition extractText :: "message option \<Rightarrow> jsstring" where
  \<comment> \<open>\<open>(msg?.text || msg?.caption || '').trim()\<close>\<close>
  "extractText msg = trim (raw_text msg)"

subsection \<open>The trigger pattern\<close>

text \<open>
  The fragment of regular expressions that \<open>/(^|\W)attendance(\W|$)/i\<close> uses. A matching
  position is the rest of the input together with a flag telling whether the position is the
  start of the input; \<open>rmatch\<close> lists the positions a match can end at, in the order a
  backtracking matcher tries them.

  Under the \<open>i\<close> flag two code units match when their canonical forms are equal. For ASCII
  the canonical form is the upper-case letter; a code unit above 127 never canonicalises into
  ASCII, so against the ASCII letters of the pattern only ASCII case folding matters, which is
  what \<open>canon\<close> does.
\<close>

datatype regex = Bol | Eol | NonWordChar | Lit jschar | Alt regex regex | Seq regex regex

definition canon :: "jschar \<Rightarrow> jschar" where
  "canon c = (if 0x61 \<le> c \<and> c \<le> 0x7A then c - 0x20 else c)"

fun rmatch :: "regex \<Rightarrow> bool \<times> jsstring \<Rightarrow> (bool \<times> jsstring) list" where
  "rmatch Bol (b, s) = (if b then [(b, s)] else [])"
| "rmatch Eol (b, s) = (if s = [] then [(b, s)] else [])"
| "rmatch NonWordChar (b, s) =
     (case s of [] \<Rightarrow> [] | c # cs \<Rightarrow> if is_word c then [] else [(False, cs)])"
| "rmatch (Lit x) (b, s) =
     (case s of [] \<Rightarrow> [] | c # cs \<Rightarrow> if canon c = canon x then [(False, cs)] else [])"
| "rmatch (Alt r1 r2) p = rmatch r1 p @ rmatch r2 p"
| "rmatch (Seq r1 r2) p = concat (map (rmatch r2) (rmatch r1 p))"

fun search :: "regex \<Rightarrow> bool \<Rightarrow> jsstring \<Rightarrow> bool" where
  \<comment> \<open>try a match at the current position, then at every later one\<close>
  "search r b [] = (rmatch r (b, []) \<noteq> [])"
| "search r b (c # cs) = (rmatch r (b, c # cs) \<noteq> [] \<or> search r False cs)"

definition regex_test :: "regex \<Rightarrow> jsstring \<Rightarrow> bool" where
  "regex_test r s = search r True s"

definition trigger_word :: jsstring where
  \<comment> \<open>the code units of \<open>attendance\<close>\<close>
  "trigger_word = [0x61, 0x74, 0x74, 0x65, 0x6E, 0x64, 0x61, 0x6E, 0x63, 0x65]"

definition lits :: "jsstring \<Rightarrow> regex \<Rightarrow> regex" where
  \<comment> \<open>a literal word is the sequence of its characters, followed by the rest of the pattern\<close>
  "lits w k = foldr (\<lambda>c r. Seq (Lit c) r) w k"

definition KEYWORD :: regex where
  "KEYWORD = Seq (Alt Bol NonWordChar) (lits trigger_word (Alt NonWordChar Eol))"

definition keyword_detected :: "message option \<Rightarrow> bool" where
  \<comment> \<open>the handler goes on exactly when \<open>!text || !KEYWORD.test(text)\<close> is false\<close>
  "keyword_detected msg = (let t = extractText msg in t \<noteq> [] \<and> regex_test KEYWORD t)"

text \<open>
  What the specification says the detector recognises: the trigger word, in any letter case,
  with a non-word character or the edge of the text on each side.
\<close>

definition same_word :: "jsstring \<Rightarrow> jsstring \<Rightarrow> bool" where
  "same_word u v = (map canon u = map canon v)"

definition bounded_keyword :: "jsstring \<Rightarrow> bool" where
  "bounded_keyword s =
     (\<exists>pre w post. s = pre @ w @ post \<and> same_word w trigger_word
        \<and> (pre = [] \<or> \<not> is_word (last pre)) \<and> (post = [] \<or> \<not> is_word (hd post)))"

definition word_here :: "jsstring \<Rightarrow> bool" where
  \<comment> \<open>the trigger word stands at the very start of \<open>s\<close>, with its right boundary\<close>
  "word_here s =
     (\<exists>u rest. s = u @ rest \<and> same_word u trigger_word \<and> (rest = [] \<or> \<not> is_word (hd rest)))"

subsection \<open>The excerpt\<close>

text \<open>
  \<open>text.replace(/\s+/g, ' ')\<close> turns every maximal run of white space into one space.
  The webhook (\<open>api/telegram.js\<close>) then keeps the first 160 code units; the polling bot
  (\<open>index.js\<close>) keeps the text when it has at most 160 code units and otherwise the first 157
  followed by the ellipsis character U+2026.
\<close>

function collapse_ws :: "jsstring \<Rightarrow> jsstring" where
  "collapse_ws [] = []"
| "collapse_ws (c # cs) =
     (if is_space c then 0x20 # collapse_ws (dropWhile is_space cs) else c # collapse_ws cs)"
  by pat_completeness auto
termination
  by (relation "measure length") (auto simp: length_dropWhile_le less_Suc_eq_le)

definition ellipsis :: jschar where
  "ellipsis = 0x2026"

definition excerpt_webhook :: "jsstring \<Rightarrow> jsstring" where
  "excerpt_webhook t = take 160 (collapse_ws t)"

definition excerpt_polling :: "jsstring \<Rightarrow> jsstring" where
  "excerpt_polling t =
     (let normalized = collapse_ws t
      in if length normalized > 160 then take 157 normalized @ [ellipsis] else normalized)"

section \<open>The store, the gateway and the effects of a handler\<close>

text \<open>
  The subscriber store holds two Redis sets of user identifiers. Identifiers go in as
  \<open>String(userId)\<close> and come out through \<open>Number(id)\<close>, which is the identity on the
  integers the platform issues, so a set is kept as a duplicate-free list of integers;
  \<open>smembers\<close> returns the list (Redis promises no order, and nothing below depends on one).
\<close>

type_synonym user_id = int

datatype kv_key = SUBS_ATTENDANCE_KEY | SUBS_CLASS_KEY

record preview =
  group_name :: jsstring
  excerpt :: jsstring

record settings =
  attendance :: bool
  classReminders :: bool

text \<open>
  What is sent: the attendance notice is the text built from \<open>previewText\<close> with the
  \<open>Open message\<close> button when \<open>linkUrl\<close> is there and the explanatory suffix when it is
  not; the class reminder is the text \<open>`${className} class starts in 5 mins`\<close>; the menu is
  the settings text and keyboard, both functions of the settings.
\<close>

datatype payload = AttendanceNotice preview "string option" | ClassReminder string

datatype reply_body = Menu settings | StopNotice

datatype log_line =
    KvSubscriptionError kv_key js_error
  | KvSismemberError kv_key js_error
  | KvSmembersError kv_key js_error
  | KvSremError js_error
  | SendError user_id "int option" string
  | DmError user_id string
  | HandlerError string

text \<open>
  Every effect of a handler is recorded, in order, in a trace: the calls to the gateway with
  their outcome (\<open>None\<close> when the call succeeds), the pauses, the log lines and the calls to
  the store with whether they succeeded.
\<close>

datatype event =
    SendMessage user_id payload "js_error option"
  | Sleep nat
  | ConsoleError log_line
  | KvSadd kv_key user_id bool
  | KvSrem kv_key user_id bool
  | KvSismember kv_key user_id bool
  | KvSmembers kv_key bool
  | AnswerCbQuery string "js_error option"
  | EditMessageText settings "js_error option"
  | Reply reply_body "js_error option"
  | MarkBlocked user_id

text \<open>
  The gateway and the store are outside the program: what the \<open>n\<close>-th call to each will
  answer is given by a script, \<open>None\<close> for success and \<open>Some e\<close> when the call throws
  \<open>e\<close>. A property proved for every world holds whatever the two services do.
  \<open>db_users\<close> is the table of the polling bot (\<open>db.js\<close>): rows of a user identifier and
  its \<open>blocked\<close> flag.
\<close>

record world =
  kv :: "kv_key \<Rightarrow> user_id list"
  db_users :: "(user_id \<times> bool) list"
  gateway_script :: "nat \<Rightarrow> js_error option"
  kv_script :: "nat \<Rightarrow> js_error option"
  gateway_calls :: nat
  kv_calls :: nat
  trace :: "event list"

type_synonym 'a js = "world \<Rightarrow> (js_error + 'a) \<times> world"

definition ret :: "'a \<Rightarrow> 'a js" where
  "ret x w = (Inr x, w)"

definition throw :: "js_error \<Rightarrow> 'a js" where
  "throw e w = (Inl e, w)"

definition bind_js :: "'a js \<Rightarrow> ('a \<Rightarrow> 'b js) \<Rightarrow> 'b js" where
  \<comment> \<open>\<open>const x = await m; f(x)\<close>: an exception of \<open>m\<close> skips \<open>f\<close>\<close>
  "bind_js m f w = (case m w of (Inl e, w1) \<Rightarrow> (Inl e, w1) | (Inr x, w1) \<Rightarrow> f x w1)"

definition try_catch :: "'a js \<Rightarrow> (js_error \<Rightarrow> 'a js) \<Rightarrow> 'a js" where
  "try_catch m h w = (case m w of (Inl e, w1) \<Rightarrow> h e w1 | (Inr x, w1) \<Rightarrow> (Inr x, w1))"

definition promise_all2 :: "'a js \<Rightarrow> 'b js \<Rightarrow> ('a \<times> 'b) js" where
  \<comment> \<open>\<open>Promise.all([a, b])\<close>: both calls are issued, in this order, and both run to their end
      whatever the other does; the result is rejected when one of them is. The two calls
      combined this way in the program act on different keys of the store, so the sets and
      the results do not depend on how the two interleave. In the trace the events of the
      first call, its log line included, stand before those of the second; the program issues
      both calls before either is logged, and no property below rests on that order.\<close>
  "promise_all2 a b w =
     (case a w of (ra, w1) \<Rightarrow>
        (case b w1 of (rb, w2) \<Rightarrow>
           ((case ra of Inl e \<Rightarrow> Inl e
             | Inr x \<Rightarrow> (case rb of Inl e \<Rightarrow> Inl e | Inr y \<Rightarrow> Inr (x, y))), w2)))"

fun fold_js :: "('s \<Rightarrow> 'a \<Rightarrow> 's js) \<Rightarrow> 's \<Rightarrow> 'a list \<Rightarrow> 's js" where
  \<comment> \<open>\<open>for (const x of xs) { ... }\<close> over local variables \<open>s\<close>: an exception that leaves the
      body leaves the loop\<close>
  "fold_js body s [] w = (Inr s, w)"
| "fold_js body s (x # xs) w =
     (case body s x w of (Inl e, w1) \<Rightarrow> (Inl e, w1) | (Inr s1, w1) \<Rightarrow> fold_js body s1 xs w1)"

definition for_each :: "('a \<Rightarrow> unit js) \<Rightarrow> 'a list \<Rightarrow> unit js" where
  "for_each body xs = fold_js (\<lambda>_ x. body x) () xs"

subsection \<open>Primitive effects\<close>

definition emit :: "event \<Rightarrow> world \<Rightarrow> world" where
  "emit e w = w\<lparr>trace := trace w @ [e]\<rparr>"

definition gateway_call :: "(js_error option \<Rightarrow> event) \<Rightarrow> unit js" where
  "gateway_call ev w =
     (let r = gateway_script w (gateway_calls w);
          w1 = emit (ev r) (w\<lparr>gateway_calls := Suc (gateway_calls w)\<rparr>)
      in (case r of None \<Rightarrow> (Inr (), w1) | Some e \<Rightarrow> (Inl e, w1)))"

definition sendMessage :: "user_id \<Rightarrow> payload \<Rightarrow> unit js" where
  "sendMessage uid p = gateway_call (SendMessage uid p)"

definition answerCbQuery :: "string \<Rightarrow> unit js" where
  "answerCbQuery t = gateway_call (AnswerCbQuery t)"

definition editMessageText :: "settings \<Rightarrow> unit js" where
  "editMessageText st = gateway_call (EditMessageText st)"

definition reply :: "reply_body \<Rightarrow> unit js" where
  "reply b = gateway_call (Reply b)"

definition sleep :: "nat \<Rightarrow> unit js" where
  \<comment> \<open>\<open>await new Promise(r => setTimeout(r, ms))\<close>\<close>
  "sleep ms w = (Inr (), emit (Sleep ms) w)"

definition console_error :: "log_line \<Rightarrow> unit js" where
  "console_error l w = (Inr (), emit (ConsoleError l) w)"

definition kv_call :: "(bool \<Rightarrow> event) \<Rightarrow> (world \<Rightarrow> 'a \<times> world) \<Rightarrow> 'a js" where
  \<comment> \<open>a call to the store: it throws when the script says so and acts on the sets otherwise\<close>
  "kv_call ev run w =
     (let w0 = w\<lparr>kv_calls := Suc (kv_calls w)\<rparr>
      in (case kv_script w (kv_calls w) of
            Some e \<Rightarrow> (Inl e, emit (ev False) w0)
          | None \<Rightarrow> (case run w0 of (x, w1) \<Rightarrow> (Inr x, emit (ev True) w1))))"

definition kv_sadd :: "kv_key \<Rightarrow> user_id \<Rightarrow> unit js" where
  "kv_sadd key uid =
     kv_call (KvSadd key uid)
       (\<lambda>w. ((), w\<lparr>kv := (kv w)(key := (if uid \<in> set (kv w key) then kv w key
                                            else kv w key @ [uid]))\<rparr>))"

definition kv_srem :: "kv_key \<Rightarrow> user_id \<Rightarrow> unit js" where
  "kv_srem key uid =
     kv_call (KvSrem key uid) (\<lambda>w. ((), w\<lparr>kv := (kv w)(key := removeAll uid (kv w key))\<rparr>))"

definition kv_sismember :: "kv_key \<Rightarrow> user_id \<Rightarrow> int js" where
  \<comment> \<open>Redis \<open>SISMEMBER\<close> answers 1 or 0\<close>
  "kv_sismember key uid =
     kv_call (KvSismember key uid) (\<lambda>w. (if uid \<in> set (kv w key) then 1 else 0, w))"

definition kv_smembers :: "kv_key \<Rightarrow> user_id list js" where
  "kv_smembers key = kv_call (KvSmembers key) (\<lambda>w. (kv w key, w))"

subsection \<open>The subscriber store adapter (\<open>api/telegram.js\<close>)\<close>

definition setSub :: "kv_key \<Rightarrow> user_id \<Rightarrow> bool \<Rightarrow> unit js" where
  "setSub key userId enabled =
     try_catch (if enabled then kv_sadd key userId else kv_srem key userId)
       (\<lambda>e. console_error (KvSubscriptionError key e))"

definition isSub :: "kv_key \<Rightarrow> user_id \<Rightarrow> bool js" where
  "isSub key userId =
     try_catch (bind_js (kv_sismember key userId) (\<lambda>r. ret (r = 1)))
       (\<lambda>e. bind_js (console_error (KvSismemberError key e)) (\<lambda>_. ret False))"

definition listSubs :: "kv_key \<Rightarrow> user_id list js" where
  "listSubs key =
     try_catch (kv_smembers key)
       (\<lambda>e. bind_js (console_error (KvSmembersError key e)) (\<lambda>_. ret []))"

definition removeFromAllLists :: "user_id \<Rightarrow> unit js" where
  "removeFromAllLists userId =
     bind_js (promise_all2 (setSub SUBS_ATTENDANCE_KEY userId False)
                           (setSub SUBS_CLASS_KEY userId False))
       (\<lambda>_. ret ())"

definition getSettings :: "user_id \<Rightarrow> settings js" where
  "getSettings userId =
     bind_js (promise_all2 (isSub SUBS_ATTENDANCE_KEY userId) (isSub SUBS_CLASS_KEY userId))
       (\<lambda>r. ret \<lparr>attendance = fst r, classReminders = snd r\<rparr>)"

subsection \<open>The fan-out engine (\<open>notifyAllUsers\<close> of \<open>api/telegram.js\<close>)\<close>

definition code_of :: "js_error \<Rightarrow> int option" where
  \<comment> \<open>\<open>e?.response?.error_code\<close>\<close>
  "code_of e = (case response e of None \<Rightarrow> None | Some r \<Rightarrow> error_code r)"

definition desc_of :: "js_error \<Rightarrow> string" where
  \<comment> \<open>\<open>e?.response?.description || e.message\<close>\<close>
  "desc_of e =
     (case (case response e of None \<Rightarrow> None | Some r \<Rightarrow> description r) of
        None \<Rightarrow> err_message e
      | Some d \<Rightarrow> if d = [] then err_message e else d)"

definition String_code :: "int option \<Rightarrow> string" where
  \<comment> \<open>\<open>String(code)\<close>\<close>
  "String_code c = (case c of None \<Rightarrow> ''undefined'' | Some n \<Rightarrow> String_int n)"

text \<open>
  The body of the loop, for one recipient:
  \<^verbatim>\<open>
  try {
    await bot.telegram.sendMessage(uid, ..., { reply_markup: { inline_keyboard } });
    await new Promise(r => setTimeout(r, 50)); // gentle rate limit
  } catch (e) {
    const code = e?.response?.error_code;
    const desc = e?.response?.description || e.message;
    console.error('send error to', uid, code, desc);
    if (String(code) === '403') { await removeFromAllLists(uid); }
  }
  \<close>
\<close>

definition notify_one :: "payload \<Rightarrow> user_id \<Rightarrow> unit js" where
  "notify_one p uid =
     try_catch (bind_js (sendMessage uid p) (\<lambda>_. sleep 50))
       (\<lambda>e. let code = code_of e; desc = desc_of e
            in bind_js (console_error (SendError uid code desc))
                 (\<lambda>_. if String_code code = ''403'' then removeFromAllLists uid else ret ()))"

definition notifyAllUsers :: "user_id list \<Rightarrow> preview \<Rightarrow> string option \<Rightarrow> unit js" where
  "notifyAllUsers userIds previewText linkUrl =
     for_each (notify_one (AttendanceNotice previewText linkUrl)) userIds"

subsection \<open>The fan-out of the polling bot (\<open>index.js\<close>, \<open>db.js\<close>)\<close>

text \<open>
  The polling bot keeps its users in a local table and marks a user as blocked instead of
  removing it; its two statements on the table are synchronous and are taken not to fail.
\<close>

definition listActiveUsers :: "world \<Rightarrow> user_id list" where
  \<comment> \<open>\<open>SELECT user_id FROM users WHERE blocked = 0\<close>\<close>
  "listActiveUsers w = map fst (filter (\<lambda>row. \<not> snd row) (db_users w))"

definition markBlocked :: "user_id \<Rightarrow> unit js" where
  \<comment> \<open>\<open>UPDATE users SET blocked = 1 WHERE user_id = ?\<close>\<close>
  "markBlocked uid w =
     (Inr (), emit (MarkBlocked uid)
        (w\<lparr>db_users := map (\<lambda>row. if fst row = uid then (fst row, True) else row) (db_users w)\<rparr>))"

definition notify_one_polling :: "payload \<Rightarrow> user_id \<Rightarrow> unit js" where
  "notify_one_polling p uid =
     try_catch (bind_js (sendMessage uid p) (\<lambda>_. sleep 60))
       (\<lambda>e. let code = code_of e; desc = desc_of e
            in bind_js (console_error (DmError uid desc))
                 (\<lambda>_. if String_code code = ''403'' then markBlocked uid else ret ()))"

definition notifyAllUsers_polling :: "preview \<Rightarrow> string option \<Rightarrow> unit js" where
  "notifyAllUsers_polling previewText linkUrl w =
     for_each (notify_one_polling (AttendanceNotice previewText linkUrl)) (listActiveUsers w) w"

subsection \<open>Commands and menu actions (\<open>initBot\<close> of \<open>api/telegram.js\<close>)\<close>

text \<open>
  The context of an update: its chat, the identifier of the sender (\<open>ctx.from.id\<close>), whether
  the update is a callback query, and its message.
\<close>

record update_ctx =
  ctx_chat :: "chat option"
  from_id :: user_id
  is_callback_query :: bool
  ctx_message :: "message option"

definition is_private :: "update_ctx \<Rightarrow> bool" where
  \<comment> \<open>\<open>ctx.chat?.type === 'private'\<close>\<close>
  "is_private ctx = (read_opt chat_kind (ctx_chat ctx) = Some Private)"

definition showMenu :: "update_ctx \<Rightarrow> bool \<Rightarrow> unit js" where
  \<comment> \<open>the edit is tried first on request; when it is rejected the menu is sent as a new
      message\<close>
  "showMenu ctx preferEdit =
     (if \<not> is_private ctx then ret ()
      else bind_js (getSettings (from_id ctx))
             (\<lambda>st. bind_js
                     (if preferEdit \<and> is_callback_query ctx
                      then try_catch (bind_js (editMessageText st) (\<lambda>_. ret True))
                             (\<lambda>_. ret False)
                      else ret False)
                     (\<lambda>edited. if edited then ret () else reply (Menu st))))"

definition preset_attendance :: "update_ctx \<Rightarrow> unit js" where
  "preset_attendance ctx =
     (if \<not> is_private ctx then ret ()
      else let userId = from_id ctx
           in bind_js (promise_all2 (setSub SUBS_ATTENDANCE_KEY userId True)
                                    (setSub SUBS_CLASS_KEY userId False))
                (\<lambda>_. bind_js (answerCbQuery ''Attendance reminders enabled.'')
                        (\<lambda>_. showMenu ctx True)))"

definition preset_both :: "update_ctx \<Rightarrow> unit js" where
  "preset_both ctx =
     (if \<not> is_private ctx then ret ()
      else let userId = from_id ctx
           in bind_js (promise_all2 (setSub SUBS_ATTENDANCE_KEY userId True)
                                    (setSub SUBS_CLASS_KEY userId True))
                (\<lambda>_. bind_js (answerCbQuery ''Attendance + Class reminders enabled.'')
                        (\<lambda>_. showMenu ctx True)))"

definition preset_none :: "update_ctx \<Rightarrow> unit js" where
  "preset_none ctx =
     (if \<not> is_private ctx then ret ()
      else bind_js (removeFromAllLists (from_id ctx))
             (\<lambda>_. bind_js (answerCbQuery ''Reminders disabled.'') (\<lambda>_. showMenu ctx True)))"

definition stop_command :: "update_ctx \<Rightarrow> unit js" where
  "stop_command ctx =
     (if \<not> is_private ctx then ret ()
      else bind_js (removeFromAllLists (from_id ctx)) (\<lambda>_. reply StopNotice))"

definition a_group :: jsstring where
  \<comment> \<open>the code units of \<open>a group\<close>\<close>
  "a_group = [0x61, 0x20, 0x67, 0x72, 0x6F, 0x75, 0x70]"

definition on_message :: "update_ctx \<Rightarrow> unit js" where
  \<comment> \<open>group messages: detect the keyword, then notify the attendance subscribers\<close>
  "on_message ctx =
     (if read_opt chat_kind (ctx_chat ctx) \<noteq> Some Group
         \<and> read_opt chat_kind (ctx_chat ctx) \<noteq> Some Supergroup then ret ()
      else if \<not> keyword_detected (ctx_message ctx) then ret ()
      else let text = extractText (ctx_message ctx)
           in (case read_prop title (ctx_chat ctx) of
                 Inl e \<Rightarrow> throw e
               | Inr t \<Rightarrow>
                   (case ctx_message ctx of
                      None \<Rightarrow> throw TypeError
                    | Some m \<Rightarrow>
                        (case buildLink (ctx_chat ctx) (message_id m) of
                           Inl e \<Rightarrow> throw e
                         | Inr link \<Rightarrow>
                             bind_js (listSubs SUBS_ATTENDANCE_KEY)
                               (\<lambda>subs. notifyAllUsers subs
                                         \<lparr>group_name = or_else t a_group,
                                          excerpt = excerpt_webhook text\<rparr> link)))))"

subsection \<open>The scheduled reminder (\<open>api/class-reminders.js\<close>)\<close>

definition CLASS_REMINDER_HOUR_GMT5 :: int where
  "CLASS_REMINDER_HOUR_GMT5 = 18"

definition CLASS_REMINDER_MINUTE_GMT5 :: int where
  "CLASS_REMINDER_MINUTE_GMT5 = 25"

definition CLASS_SCHEDULE_BY_GMT5_DAY :: "int \<Rightarrow> string option" where
  "CLASS_SCHEDULE_BY_GMT5_DAY =
     [1 \<mapsto> ''Database Design Concepts'', 2 \<mapsto> ''Computer Systems'',
      3 \<mapsto> ''Business Skills for E- Commerce'', 4 \<mapsto> ''Website Design'']"

text \<open>
  \<open>getGmt5Parts\<close> reads \<open>getUTCDay\<close>, \<open>getUTCHours\<close> and \<open>getUTCMinutes\<close> of the date
  five hours after \<open>Date.now()\<close>, a number of milliseconds since the epoch. By the language
  standard these are \<open>(floor(t / msPerDay) + 4) mod 7\<close>, \<open>floor(t / msPerHour) mod 24\<close> and
  \<open>floor(t / msPerMinute) mod 60\<close>.
\<close>

definition nowInGmt5 :: "int \<Rightarrow> int" where
  "nowInGmt5 now = now + 5 * 60 * 60 * 1000"

definition getGmt5Parts :: "int \<Rightarrow> int \<times> int \<times> int" where
  "getGmt5Parts now =
     (let d = nowInGmt5 now
      in ((d div 86400000 + 4) mod 7, (d div 3600000) mod 24, (d div 60000) mod 60))"

definition removeFromAllLists_cron :: "user_id \<Rightarrow> unit js" where
  \<comment> \<open>the reminder's own copy: one \<open>try\<close> around \<open>Promise.all\<close> of the two \<open>srem\<close> calls\<close>
  "removeFromAllLists_cron userId =
     try_catch (bind_js (promise_all2 (kv_srem SUBS_ATTENDANCE_KEY userId)
                                      (kv_srem SUBS_CLASS_KEY userId))
                  (\<lambda>_. ret ()))
       (\<lambda>e. console_error (KvSremError e))"

record counters =
  sent :: nat
  removed :: nat
  failed :: nat

definition remind_one :: "string \<Rightarrow> counters \<Rightarrow> user_id \<Rightarrow> counters js" where
  \<comment> \<open>the body of the reminder's send loop\<close>
  "remind_one txt c uid =
     try_catch (bind_js (sendMessage uid (ClassReminder txt))
                  (\<lambda>_. bind_js (sleep 50) (\<lambda>_. ret (c\<lparr>sent := sent c + 1\<rparr>))))
       (\<lambda>e. let c1 = c\<lparr>failed := failed c + 1\<rparr>; code = code_of e; desc = desc_of e
            in bind_js (console_error (SendError uid code desc))
                 (\<lambda>_. if String_code code = ''403''
                       then bind_js (removeFromAllLists_cron uid)
                              (\<lambda>_. ret (c1\<lparr>removed := removed c1 + 1\<rparr>))
                       else ret c1))"

text \<open>
  The request of the cron target: the environment variables it reads, the query parameters
  \<open>secret\<close> and \<open>force\<close> as \<open>url.searchParams.get\<close> returns them (\<open>None\<close> for
  \<open>null\<close>), and the instant of the invocation (\<open>Date.now()\<close>). Parsing the URL of the
  request belongs to the HTTP layer and is not modelled. The response is the JSON object the
  handler answers with, one constructor per shape.
\<close>

record cron_request =
  env_BOT_TOKEN :: "string option"
  env_KV_REST_API_URL :: "string option"
  env_KV_REST_API_TOKEN :: "string option"
  env_CRON_SECRET :: "string option"
  query_secret :: "string option"
  query_force :: "string option"
  now :: int

record executed =
  res_day :: int
  res_hour :: int
  res_minute :: int
  res_className :: string
  res_total :: nat
  res_counts :: counters

datatype cron_response =
    ErrorResponse string
  | MissingKvEnv "string list"
  | Unauthorized
  | SkippedNoClass int
  | SkippedWrongTime int int int
  | Executed executed

definition class_reminders_body :: "cron_request \<Rightarrow> cron_response js" where
  "class_reminders_body req =
     (if \<not> truthy_str (env_BOT_TOKEN req)
      then throw \<lparr>response = None, err_message = ''Missing BOT_TOKEN''\<rparr>
      else let missing = (if truthy_str (env_KV_REST_API_URL req) then [] else [''KV_REST_API_URL''])
                         @ (if truthy_str (env_KV_REST_API_TOKEN req) then []
                            else [''KV_REST_API_TOKEN''])
      in if missing \<noteq> [] then ret (MissingKvEnv missing)
      else let force = (query_force req = Some ''1'')
      in if truthy_str (env_CRON_SECRET req) \<and> query_secret req \<noteq> env_CRON_SECRET req
         then ret Unauthorized
      else (case getGmt5Parts (now req) of (day, hour, minute) \<Rightarrow>
        let className = CLASS_SCHEDULE_BY_GMT5_DAY day;
            scheduledMinutes = CLASS_REMINDER_HOUR_GMT5 * 60 + CLASS_REMINDER_MINUTE_GMT5;
            nowMinutes = hour * 60 + minute
        in if \<not> force \<and> \<not> truthy_str className then ret (SkippedNoClass day)
           else if \<not> force \<and> \<bar>nowMinutes - scheduledMinutes\<bar> > 1
                then ret (SkippedWrongTime day hour minute)
           else if \<not> truthy_str className then ret (SkippedNoClass day)
           else bind_js (kv_smembers SUBS_CLASS_KEY)
                  (\<lambda>userIds.
                     bind_js (fold_js (remind_one (template_str className @ '' class starts in 5 mins''))
                                \<lparr>sent = 0, removed = 0, failed = 0\<rparr> userIds)
                       (\<lambda>c. ret (Executed \<lparr>res_day = day, res_hour = hour,
                                            res_minute = minute,
                                            res_className = template_str className,
                                            res_total = length userIds, res_counts = c\<rparr>)))))"

definition class_reminders_handler :: "cron_request \<Rightarrow> cron_response js" where
  \<comment> \<open>every fault is caught and reported in the response\<close>
  "class_reminders_handler req =
     try_catch (class_reminders_body req)
       (\<lambda>err. bind_js (console_error (HandlerError (err_message err)))
                 (\<lambda>_. ret (ErrorResponse (if err_message err = [] then ''unknown error''
                                            else err_message err))))"

section \<open>Notions for stating the properties\<close>

subsection \<open>Reading a trace\<close>

text \<open>
  A handler only ever adds events at the end of the trace: \<open>emitted w w'\<close> is what was
  added between two worlds. \<open>attempts\<close> lists the recipients of the send attempts of a
  trace, in order.
\<close>

definition emitted :: "world \<Rightarrow> world \<Rightarrow> event list" where
  "emitted w w' = drop (length (trace w)) (trace w')"

definition extends :: "world \<Rightarrow> world \<Rightarrow> bool" where
  "extends w w' = (\<exists>T. trace w' = trace w @ T)"

fun attempt_of :: "event \<Rightarrow> user_id list" where
  "attempt_of (SendMessage u p r) = [u]"
| "attempt_of _ = []"

definition attempts :: "event list \<Rightarrow> user_id list" where
  "attempts T = concat (map attempt_of T)"

text \<open>
  \<open>paced ms T\<close>: in the trace \<open>T\<close> a pause stands directly after every delivered send and
  nowhere else, and every pause lasts \<open>ms\<close>. The flag of \<open>paced_from\<close> tells whether the
  event before was a delivered send, which still waits for its pause.
\<close>

primrec paced_from :: "bool \<Rightarrow> nat \<Rightarrow> event list \<Rightarrow> bool" where
  "paced_from pending ms [] = (\<not> pending)"
| "paced_from pending ms (e # es) =
     (case e of
        Sleep n \<Rightarrow> pending \<and> n = ms \<and> paced_from False ms es
      | SendMessage u p r \<Rightarrow> \<not> pending \<and> paced_from (r = None) ms es
      | _ \<Rightarrow> \<not> pending \<and> paced_from False ms es)"

definition paced :: "nat \<Rightarrow> event list \<Rightarrow> bool" where
  "paced ms T = paced_from False ms T"

text \<open>
  The pacing rule as the specification words it: after each send attempt, delivered or not,
  a pause comes before the attempt for the next recipient.
\<close>

primrec pause_before_next_attempt :: "event list \<Rightarrow> bool" where
  "pause_before_next_attempt [] = True"
| "pause_before_next_attempt (e # es) =
     (case e of Sleep n \<Rightarrow> True | SendMessage u p r \<Rightarrow> False
      | _ \<Rightarrow> pause_before_next_attempt es)"

primrec pause_after_each_attempt :: "event list \<Rightarrow> bool" where
  "pause_after_each_attempt [] = True"
| "pause_after_each_attempt (e # es) =
     ((case e of SendMessage u p r \<Rightarrow> pause_before_next_attempt es | _ \<Rightarrow> True)
      \<and> pause_after_each_attempt es)"

text \<open>
  The events of one removal from all lists and of one turn of the fan-out loop, read off the
  scripts of the world the turn starts in.
\<close>

definition rm_events :: "user_id \<Rightarrow> world \<Rightarrow> event list" where
  "rm_events u w =
     (case kv_script w (kv_calls w) of
        None \<Rightarrow> [KvSrem SUBS_ATTENDANCE_KEY u True]
      | Some e \<Rightarrow> [KvSrem SUBS_ATTENDANCE_KEY u False,
                   ConsoleError (KvSubscriptionError SUBS_ATTENDANCE_KEY e)])
     @ (case kv_script w (Suc (kv_calls w)) of
          None \<Rightarrow> [KvSrem SUBS_CLASS_KEY u True]
        | Some e \<Rightarrow> [KvSrem SUBS_CLASS_KEY u False,
                     ConsoleError (KvSubscriptionError SUBS_CLASS_KEY e)])"

definition step_events :: "payload \<Rightarrow> user_id \<Rightarrow> world \<Rightarrow> event list" where
  "step_events p u w =
     (case gateway_script w (gateway_calls w) of
        None \<Rightarrow> [SendMessage u p None, Sleep 50]
      | Some e \<Rightarrow> [SendMessage u p (Some e), ConsoleError (SendError u (code_of e) (desc_of e))]
                  @ (if code_of e = Some 403 then rm_events u w else []))"

subsection \<open>Worlds to run the handlers in\<close>

text \<open>
  Three errors the services can answer with, and a world where users 7 and 8 get attendance
  notices, user 7 also gets class reminders, and neither service fails. Other worlds are
  this one with other scripts.
\<close>

definition blocked_error :: js_error where
  "blocked_error =
     \<lparr>response = Some \<lparr>error_code = Some 403,
                         description = Some ''Forbidden: bot was blocked by the user''\<rparr>,
      err_message = ''403: Forbidden''\<rparr>"

definition network_error :: js_error where
  "network_error = \<lparr>response = None, err_message = ''request failed''\<rparr>"

definition store_error :: js_error where
  "store_error = \<lparr>response = None, err_message = ''store unreachable''\<rparr>"

definition world0 :: world where
  "world0 =
     \<lparr>kv = (\<lambda>k. case k of SUBS_ATTENDANCE_KEY \<Rightarrow> [7, 8] | SUBS_CLASS_KEY \<Rightarrow> [7]),
      db_users = [(7, False), (8, False)],
      gateway_script = (\<lambda>n. None), kv_script = (\<lambda>n. None),
      gateway_calls = 0, kv_calls = 0, trace = []\<rparr>"

definition a_preview :: preview where
  "a_preview = \<lparr>group_name = a_group, excerpt = trigger_word\<rparr>"

subsection \<open>Healthy services, and computations that leave the store alone\<close>

definition gateway_ok :: "world \<Rightarrow> bool" where
  \<comment> \<open>no call to the gateway fails\<close>
  "gateway_ok w = (\<forall>n. gateway_script w n = None)"

definition store_ok :: "world \<Rightarrow> bool" where
  \<comment> \<open>no call to the store fails\<close>
  "store_ok w = (\<forall>n. kv_script w n = None)"

definition completes :: "'a js \<Rightarrow> bool" where
  \<comment> \<open>with a healthy gateway the computation returns normally, whatever the store does\<close>
  "completes m = (\<forall>w. gateway_ok w \<longrightarrow> (\<exists>x. fst (m w) = Inr x) \<and> gateway_ok (snd (m w)))"

definition store_untouched :: "'a js \<Rightarrow> bool" where
  \<comment> \<open>the computation changes neither the sets of the store nor the scripts\<close>
  "store_untouched m =
     (\<forall>w. kv (snd (m w)) = kv w \<and> kv_script (snd (m w)) = kv_script w
          \<and> gateway_script (snd (m w)) = gateway_script w)"

subsection \<open>Subscription states and the operations that change them\<close>

definition class_within_attendance :: "world \<Rightarrow> bool" where
  \<comment> \<open>who gets class reminders also gets attendance notices\<close>
  "class_within_attendance w = (set (kv w SUBS_CLASS_KEY) \<subseteq> set (kv w SUBS_ATTENDANCE_KEY))"

datatype operation =
    PresetAttendance update_ctx
  | PresetBoth update_ctx
  | PresetNone update_ctx
  | StopCommand update_ctx
  | FanOut "user_id list" preview "string option"

primrec run_operation :: "operation \<Rightarrow> world \<Rightarrow> world" where
  "run_operation (PresetAttendance ctx) w = snd (preset_attendance ctx w)"
| "run_operation (PresetBoth ctx) w = snd (preset_both ctx w)"
| "run_operation (PresetNone ctx) w = snd (preset_none ctx w)"
| "run_operation (StopCommand ctx) w = snd (stop_command ctx w)"
| "run_operation (FanOut us pv l) w = snd (notifyAllUsers us pv l w)"

definition run_operations :: "operation list \<Rightarrow> world \<Rightarrow> world" where
  "run_operations ops w = fold run_operation ops w"

definition private_chat_of :: "user_id \<Rightarrow> update_ctx" where
  \<comment> \<open>a callback query that a user sends from the private chat with the bot\<close>
  "private_chat_of u =
     \<lparr>ctx_chat = Some \<lparr>chat_kind = Some Private, username = None, chat_id = Some u, title = None\<rparr>,
      from_id = u, is_callback_query = True, ctx_message = None\<rparr>"

subsection \<open>Invocations of the scheduled reminder\<close>

definition guards_pass :: "cron_request \<Rightarrow> bool" where
  \<comment> \<open>the bot token and the store's environment are set, and the caller is authorised\<close>
  "guards_pass req =
     (truthy_str (env_BOT_TOKEN req) \<and> truthy_str (env_KV_REST_API_URL req)
      \<and> truthy_str (env_KV_REST_API_TOKEN req)
      \<and> \<not> (truthy_str (env_CRON_SECRET req) \<and> query_secret req \<noteq> env_CRON_SECRET req))"

definition forced :: "cron_request \<Rightarrow> bool" where
  \<comment> \<open>the override flag: \<open>url.searchParams.get('force') === '1'\<close>\<close>
  "forced req = (query_force req = Some ''1'')"

definition monday_1825 :: cron_request where
  \<comment> \<open>an invocation on Monday 1 January 2024 at 18:25:00 GMT+5, with no secret configured\<close>
  "monday_1825 =
     \<lparr>env_BOT_TOKEN = Some ''token'', env_KV_REST_API_URL = Some ''url'',
      env_KV_REST_API_TOKEN = Some ''kv-token'', env_CRON_SECRET = None,
      query_secret = None, query_force = None, now = 1704115500000\<rparr>"

subsection \<open>A long message that triggers the notification\<close>

definition long_trigger_text :: jsstring where
  \<comment> \<open>the word \<open>attendance\<close>, two spaces and two hundred letters \<open>a\<close>\<close>
  "long_trigger_text = trigger_word @ [0x20, 0x20] @ replicate 200 0x61"

definition long_trigger_message :: message where
  "long_trigger_message = \<lparr>message_id = 42, msg_text = Some long_trigger_text, caption = None\<rparr>"

definition group_update :: update_ctx where
  \<comment> \<open>the message as it arrives from a public supergroup\<close>
  "group_update =
     \<lparr>ctx_chat = Some \<lparr>chat_kind = Some Supergroup, username = Some ''grp'',
                        chat_id = Some (- 1001234567890), title = None\<rparr>,
      from_id = 9, is_callback_query = False, ctx_message = Some long_trigger_message\<rparr>"

section \<open>The link resolver\<close>

lemma buildMessageLink_eq: "buildMessageLink c m = buildLink c m"
  by (cases c) (simp_all add: buildMessageLink_def buildLink_def read_prop_def read_opt_def
      truthy_str_def id_or_empty_def startsWith_def)

lemma String_int_0: "String_int 0 = ''0''"
  by (simp add: String_int_def String_nat.simps digit_char_def)

lemma startsWith_100_nonzero: "startsWith (String_int i) ''-100'' \<Longrightarrow> i \<noteq> 0"
  by (auto simp: String_int_0 startsWith_def)

lemma buildLink_handle:
  "username c = Some h \<Longrightarrow> h \<noteq> [] \<Longrightarrow>
   buildLink (Some c) m = Inr (Some (''https://t.me/'' @ h @ ''/'' @ String_int m))"
  by (simp add: buildLink_def truthy_str_def read_opt_def read_prop_def template_str_def)

lemma buildLink_private:
  "username c = None \<or> username c = Some [] \<Longrightarrow> chat_id c = Some i \<Longrightarrow>
   startsWith (String_int i) ''-100'' \<Longrightarrow>
   buildLink (Some c) m
     = Inr (Some (''https://t.me/c/'' @ drop 4 (String_int i) @ ''/'' @ String_int m))"
  using startsWith_100_nonzero[of i]
  by (auto simp add: buildLink_def truthy_str_def read_opt_def read_prop_def id_or_empty_def)

lemma buildLink_none:
  "username c = None \<or> username c = Some [] \<Longrightarrow>
   \<forall>i. chat_id c = Some i \<longrightarrow> \<not> startsWith (String_int i) ''-100'' \<Longrightarrow>
   buildLink (Some c) m = Inr None"
  by (auto simp add: buildLink_def truthy_str_def read_opt_def read_prop_def id_or_empty_def
      startsWith_def split: option.splits)

lemma buildLink_absent: "buildLink None m = Inr None"
  by (simp add: buildLink_def truthy_str_def read_opt_def id_or_empty_def startsWith_def)

lemma buildLink_returns: "\<exists>r. buildLink c m = Inr r"
  by (cases c) (auto simp add: buildLink_def truthy_str_def read_opt_def read_prop_def Let_def
      split: option.splits)

text \<open>
  C6. For every chat and message identifier the link resolver (\<open>buildLink\<close> of the webhook,
  \<open>buildMessageLink\<close> of the polling bot) returns \<open>https://t.me/<handle>/<messageId>\<close> when
  the chat has a public handle, whatever its identifier is; without a handle, when the decimal
  rendering of the chat's identifier starts with \<open>-100\<close>, it returns
  \<open>https://t.me/c/XXXX/<messageId>\<close> where \<open>XXXX\<close> is the rendering without its first four
  characters; in every other case, and for an absent chat, it returns \<open>null\<close>.
\<close>

theorem link_resolver_cases:
  "(\<forall>h. username c = Some h \<and> h \<noteq> [] \<longrightarrow>
        buildLink (Some c) m = Inr (Some (''https://t.me/'' @ h @ ''/'' @ String_int m)))
   \<and> (\<forall>i. (username c = None \<or> username c = Some []) \<and> chat_id c = Some i
           \<and> startsWith (String_int i) ''-100'' \<longrightarrow>
        buildLink (Some c) m
          = Inr (Some (''https://t.me/c/'' @ drop 4 (String_int i) @ ''/'' @ String_int m)))
   \<and> ((username c = None \<or> username c = Some [])
        \<and> (\<forall>i. chat_id c = Some i \<longrightarrow> \<not> startsWith (String_int i) ''-100'') \<longrightarrow>
        buildLink (Some c) m = Inr None)
   \<and> buildLink None m = Inr None
   \<and> buildMessageLink (Some c) m = buildLink (Some c) m
   \<and> buildMessageLink None m = Inr None"
proof (intro conjI allI impI)
  fix h assume "username c = Some h \<and> h \<noteq> []"
  then show "buildLink (Some c) m = Inr (Some (''https://t.me/'' @ h @ ''/'' @ String_int m))"
    by (simp add: buildLink_handle)
next
  fix i
  assume "(username c = None \<or> username c = Some []) \<and> chat_id c = Some i
          \<and> startsWith (String_int i) ''-100''"
  then show "buildLink (Some c) m
      = Inr (Some (''https://t.me/c/'' @ drop 4 (String_int i) @ ''/'' @ String_int m))"
    by (intro buildLink_private) simp_all
next
  assume "(username c = None \<or> username c = Some [])
          \<and> (\<forall>i. chat_id c = Some i \<longrightarrow> \<not> startsWith (String_int i) ''-100'')"
  then show "buildLink (Some c) m = Inr None"
    by (intro buildLink_none) simp_all
next
  show "buildLink None m = Inr None" by (rule buildLink_absent)
next
  show "buildMessageLink (Some c) m = buildLink (Some c) m" by (rule buildMessageLink_eq)
next
  show "buildMessageLink None m = Inr None" by (simp add: buildMessageLink_eq buildLink_absent)
qed

theorem link_resolver_cases_witness:
  "buildLink (Some \<lparr>chat_kind = Some Supergroup, username = Some ''grp'',
                    chat_id = Some (- 1001234567890), title = None\<rparr>) 42
     = Inr (Some ''https://t.me/grp/42'')
   \<and> buildLink (Some \<lparr>chat_kind = Some Supergroup, username = None,
                      chat_id = Some (- 1001234567890), title = None\<rparr>) 42
     = Inr (Some ''https://t.me/c/1234567890/42'')
   \<and> buildLink (Some \<lparr>chat_kind = Some Group, username = None,
                      chat_id = Some (- 987), title = None\<rparr>) 42
     = Inr None"
proof -
  have v: "String_int (- 1001234567890) = ''-1001234567890''" "String_int 42 = ''42''"
    "String_int (- 987) = ''-987''"
    by (simp_all add: String_int_def String_nat.simps digit_char_def)
  show ?thesis
    using link_resolver_cases [of "\<lparr>chat_kind = Some Supergroup, username = Some ''grp'',
                    chat_id = Some (- 1001234567890), title = None\<rparr>" 42]
      link_resolver_cases [of "\<lparr>chat_kind = Some Supergroup, username = None,
                      chat_id = Some (- 1001234567890), title = None\<rparr>" 42]
      link_resolver_cases [of "\<lparr>chat_kind = Some Group, username = None,
                      chat_id = Some (- 987), title = None\<rparr>" 42]
    by (simp add: v startsWith_def)
qed

text \<open>
  C7. The link resolver is a total function of the chat and the message identifier: for
  every input, an absent chat and a chat without handle or identifier included, it returns a
  value (a link or \<open>null\<close>) and raises nothing. It reads and writes no state.
\<close>

theorem link_resolver_total:
  "(\<exists>r. buildLink c m = Inr r) \<and> (\<exists>r. buildMessageLink c m = Inr r)"
  by (simp add: buildMessageLink_eq buildLink_returns)

section \<open>The excerpt of the notification\<close>

lemma collapse_ws_no_space: "\<forall>c\<in>set t. \<not> is_space c \<Longrightarrow> collapse_ws t = t"
  by (induction t) auto

lemma collapse_ws_spaces: "c \<in> set (collapse_ws t) \<Longrightarrow> is_space c \<Longrightarrow> c = 0x20"
  by (induction t rule: collapse_ws.induct) (auto split: if_splits)

lemma collapse_ws_keeps: "filter (\<lambda>c. \<not> is_space c) (collapse_ws t) = filter (\<lambda>c. \<not> is_space c) t"
proof (induction t rule: collapse_ws.induct)
  case 1
  then show ?case by simp
next
  case (2 c cs)
  have sp: "is_space (0x20 :: jschar)" by (simp add: is_space_def)
  have dw: "filter (\<lambda>c. \<not> is_space c) (dropWhile is_space cs) = filter (\<lambda>c. \<not> is_space c) cs"
    by (induction cs) auto
  from 2 show ?case by (auto simp: sp dw)
qed

lemma hd_dropWhile_not: "dropWhile P xs \<noteq> [] \<Longrightarrow> \<not> P (hd (dropWhile P xs))"
  by (induction xs) auto

lemma collapse_ws_hd: "collapse_ws t \<noteq> [] \<Longrightarrow> is_space (hd (collapse_ws t)) = is_space (hd t)"
  by (cases t) (auto simp: is_space_def)

lemma collapse_ws_Nil: "collapse_ws t = [] \<longleftrightarrow> t = []"
  by (cases t) auto

lemma collapse_ws_no_runs:
  "collapse_ws t = xs @ a # b # ys \<Longrightarrow> \<not> (is_space a \<and> is_space b)"
proof (induction t arbitrary: xs rule: collapse_ws.induct)
  case 1
  then show ?case by simp
next
  case (2 c cs)
  show ?case
  proof (cases "is_space c")
    case True
    let ?r = "collapse_ws (dropWhile is_space cs)"
    from 2(3) True have eq: "0x20 # ?r = xs @ a # b # ys" by simp
    show ?thesis
    proof (cases xs)
      case Nil
      with eq have r: "?r = b # ys" by simp
      then have "dropWhile is_space cs \<noteq> []"
        using collapse_ws_Nil[of "dropWhile is_space cs"] by (simp del: dropWhile_eq_Nil_conv)
      then have "\<not> is_space (hd (dropWhile is_space cs))" by (rule hd_dropWhile_not)
      moreover from r have "is_space (hd ?r) = is_space (hd (dropWhile is_space cs))"
        by (intro collapse_ws_hd) simp
      ultimately show ?thesis using r by simp
    next
      case (Cons x xs')
      with eq have "?r = xs' @ a # b # ys" by simp
      with 2(1)[OF True] show ?thesis by blast
    qed
  next
    case False
    from 2(3) False have eq: "c # collapse_ws cs = xs @ a # b # ys" by simp
    show ?thesis
    proof (cases xs)
      case Nil
      with eq False show ?thesis by simp
    next
      case (Cons x xs')
      with eq have "collapse_ws cs = xs' @ a # b # ys" by simp
      with 2(2)[OF False] show ?thesis by blast
    qed
  qed
qed

lemma collapse_ws_prefix:
  "\<forall>x\<in>set u. \<not> is_space x \<Longrightarrow> collapse_ws (u @ v) = u @ collapse_ws v"
  by (induction u) auto

lemma dropWhile_run:
  "\<forall>x\<in>set ws. is_space x \<Longrightarrow> v = [] \<or> \<not> is_space (hd v) \<Longrightarrow> dropWhile is_space (ws @ v) = v"
proof (induction ws)
  case Nil
  then show ?case by (cases v) auto
next
  case (Cons c cs)
  then show ?case by simp
qed

text \<open>
  A run of white space, of whatever length and characters, between two words or at the end of
  the text comes out as exactly one space.
\<close>

lemma collapse_ws_run:
  assumes "\<forall>x\<in>set u. \<not> is_space x" and "ws \<noteq> []" and "\<forall>x\<in>set ws. is_space x"
    and "v = [] \<or> \<not> is_space (hd v)"
  shows "collapse_ws (u @ ws @ v) = u @ 0x20 # collapse_ws v"
proof -
  from assms(2) obtain c cs where ws: "ws = c # cs" by (cases ws) auto
  with assms(3) have c: "is_space c" and cs: "\<forall>x\<in>set cs. is_space x" by simp_all
  have "collapse_ws (ws @ v) = 0x20 # collapse_ws (dropWhile is_space (cs @ v))"
    using c by (simp add: ws)
  also have "dropWhile is_space (cs @ v) = v" using cs assms(4) by (rule dropWhile_run)
  finally show ?thesis using assms(1) by (simp add: collapse_ws_prefix)
qed

text \<open>
  The two formatters, for every text: what the normaliser keeps, and what each does with a
  normalised text of at most 160 code units and with a longer one.
\<close>

lemma excerpt_rules:
  "(length (collapse_ws t) \<le> 160 \<longrightarrow>
      excerpt_polling t = collapse_ws t \<and> excerpt_webhook t = collapse_ws t)
   \<and> (length (collapse_ws t) > 160 \<longrightarrow>
        excerpt_polling t = take 157 (collapse_ws t) @ [ellipsis]
        \<and> length (excerpt_polling t) = 158
        \<and> excerpt_webhook t = take 160 (collapse_ws t)
        \<and> length (excerpt_webhook t) = 160)
   \<and> (\<forall>x \<in> set (collapse_ws t). is_space x \<longrightarrow> x = 0x20)
   \<and> (\<forall>xs a b ys. collapse_ws t = xs @ a # b # ys \<longrightarrow> \<not> (is_space a \<and> is_space b))
   \<and> filter (\<lambda>x. \<not> is_space x) (collapse_ws t) = filter (\<lambda>x. \<not> is_space x) t
   \<and> (\<not> is_space c \<longrightarrow>
        excerpt_polling (replicate 200 c) = replicate 157 c @ [ellipsis]
        \<and> excerpt_webhook (replicate 200 c) = replicate 160 c
        \<and> excerpt_polling (replicate 50 c) = replicate 50 c
        \<and> excerpt_webhook (replicate 50 c) = replicate 50 c)"
proof (intro conjI)
  show "length (collapse_ws t) \<le> 160 \<longrightarrow>
      excerpt_polling t = collapse_ws t \<and> excerpt_webhook t = collapse_ws t"
    by (simp add: excerpt_polling_def excerpt_webhook_def)
  show "length (collapse_ws t) > 160 \<longrightarrow>
        excerpt_polling t = take 157 (collapse_ws t) @ [ellipsis]
        \<and> length (excerpt_polling t) = 158
        \<and> excerpt_webhook t = take 160 (collapse_ws t)
        \<and> length (excerpt_webhook t) = 160"
    by (simp add: excerpt_polling_def excerpt_webhook_def)
  show "\<forall>x \<in> set (collapse_ws t). is_space x \<longrightarrow> x = 0x20"
    using collapse_ws_spaces by blast
  show "\<forall>xs a b ys. collapse_ws t = xs @ a # b # ys \<longrightarrow> \<not> (is_space a \<and> is_space b)"
    using collapse_ws_no_runs by blast
  show "filter (\<lambda>x. \<not> is_space x) (collapse_ws t) = filter (\<lambda>x. \<not> is_space x) t"
    by (rule collapse_ws_keeps)
  show "\<not> is_space c \<longrightarrow>
        excerpt_polling (replicate 200 c) = replicate 157 c @ [ellipsis]
        \<and> excerpt_webhook (replicate 200 c) = replicate 160 c
        \<and> excerpt_polling (replicate 50 c) = replicate 50 c
        \<and> excerpt_webhook (replicate 50 c) = replicate 50 c"
    by (simp add: excerpt_polling_def excerpt_webhook_def collapse_ws_no_space)
qed

section \<open>The keyword detector\<close>

lemma lits_Nil: "lits [] k = k" by (simp add: lits_def)
lemma lits_Cons: "lits (c # w) k = Seq (Lit c) (lits w k)" by (simp add: lits_def)

lemma rmatch_lits:
  "rmatch (lits w k) (b, s) \<noteq> [] \<longleftrightarrow>
     (\<exists>u rest. s = u @ rest \<and> same_word u w \<and> rmatch k (b \<and> w = [], rest) \<noteq> [])"
proof (induction w arbitrary: b s)
  case Nil
  then show ?case by (simp add: lits_Nil same_word_def)
next
  case (Cons c w)
  show ?case
  proof (cases s)
    case Nil
    then show ?thesis by (simp add: lits_Cons same_word_def)
  next
    case (Cons x xs)
    show ?thesis
    proof (cases "canon x = canon c")
      case True
      have "rmatch (lits (c # w) k) (b, s) = rmatch (lits w k) (False, xs)"
        using Cons True by (simp add: lits_Cons)
      moreover have "(\<exists>u rest. s = u @ rest \<and> same_word u (c # w) \<and> rmatch k (b \<and> c # w = [], rest) \<noteq> [])
          \<longleftrightarrow> (\<exists>u rest. xs = u @ rest \<and> same_word u w \<and> rmatch k (False, rest) \<noteq> [])"
      proof
        assume "\<exists>u rest. s = u @ rest \<and> same_word u (c # w) \<and> rmatch k (b \<and> c # w = [], rest) \<noteq> []"
        then obtain u rest where u: "s = u @ rest" "same_word u (c # w)" "rmatch k (False, rest) \<noteq> []"
          by auto
        from u(2) obtain y u' where "u = y # u'" "same_word u' w"
          by (cases u) (auto simp: same_word_def)
        with u Cons have "xs = u' @ rest \<and> same_word u' w \<and> rmatch k (False, rest) \<noteq> []" by simp
        then show "\<exists>u rest. xs = u @ rest \<and> same_word u w \<and> rmatch k (False, rest) \<noteq> []" by blast
      next
        assume "\<exists>u rest. xs = u @ rest \<and> same_word u w \<and> rmatch k (False, rest) \<noteq> []"
        then obtain u rest where "xs = u @ rest" "same_word u w" "rmatch k (False, rest) \<noteq> []" by blast
        with Cons True have "s = (x # u) @ rest \<and> same_word (x # u) (c # w) \<and> rmatch k (b \<and> c # w = [], rest) \<noteq> []"
          by (simp add: same_word_def)
        then show "\<exists>u rest. s = u @ rest \<and> same_word u (c # w) \<and> rmatch k (b \<and> c # w = [], rest) \<noteq> []" by blast
      qed
      ultimately show ?thesis using Cons.IH[of False xs] by simp
    next
      case False
      then show ?thesis using Cons by (auto simp add: lits_Cons same_word_def Cons_eq_append_conv)
    qed
  qed
qed

lemma rmatch_tail: "rmatch (Alt NonWordChar Eol) (b, rest) \<noteq> [] \<longleftrightarrow> (rest = [] \<or> \<not> is_word (hd rest))"
  by (cases rest) auto

lemma trigger_word_nonempty: "trigger_word \<noteq> []"
  by (simp add: trigger_word_def)

lemma rmatch_word: "rmatch (lits trigger_word (Alt NonWordChar Eol)) (b, s) \<noteq> [] \<longleftrightarrow> word_here s"
  by (simp only: rmatch_lits rmatch_tail word_here_def trigger_word_nonempty simp_thms)

lemma rmatch_KEYWORD:
  "rmatch KEYWORD (b, s) \<noteq> [] \<longleftrightarrow>
     (b \<and> word_here s) \<or> (\<exists>x xs. s = x # xs \<and> \<not> is_word x \<and> word_here xs)"
  unfolding KEYWORD_def
  by (cases s) (auto simp add: rmatch_word simp del: rmatch.simps(6) simp add: rmatch.simps(6)[of "Alt Bol NonWordChar"])

lemma search_iff:
  "search r b s \<longleftrightarrow> (\<exists>pre post. s = pre @ post \<and> rmatch r (b \<and> pre = [], post) \<noteq> [])"
proof (induction s arbitrary: b)
  case Nil
  then show ?case by simp
next
  case (Cons c cs)
  show ?case
  proof
    assume "search r b (c # cs)"
    then consider "rmatch r (b, c # cs) \<noteq> []" | "search r False cs" by auto
    then show "\<exists>pre post. c # cs = pre @ post \<and> rmatch r (b \<and> pre = [], post) \<noteq> []"
    proof cases
      case 1
      then have "c # cs = [] @ (c # cs) \<and> rmatch r (b \<and> ([]::jsstring) = [], c # cs) \<noteq> []" by simp
      then show ?thesis by blast
    next
      case 2
      then obtain pre post where "cs = pre @ post" "rmatch r (False, post) \<noteq> []"
        using Cons.IH[of False] by auto
      then have "c # cs = (c # pre) @ post \<and> rmatch r (b \<and> c # pre = [], post) \<noteq> []" by simp
      then show ?thesis by blast
    qed
  next
    assume "\<exists>pre post. c # cs = pre @ post \<and> rmatch r (b \<and> pre = [], post) \<noteq> []"
    then obtain pre post where pp: "c # cs = pre @ post" "rmatch r (b \<and> pre = [], post) \<noteq> []" by blast
    show "search r b (c # cs)"
    proof (cases pre)
      case Nil
      with pp have "rmatch r (b, c # cs) \<noteq> []" by simp
      then show ?thesis by simp
    next
      case (Cons x pre')
      with pp have "cs = pre' @ post" "rmatch r (False, post) \<noteq> []" by auto
      then have "search r False cs" using Cons.IH[of False] by auto
      then show ?thesis by simp
    qed
  qed
qed

lemma regex_test_KEYWORD: "regex_test KEYWORD s \<longleftrightarrow> bounded_keyword s"
proof
  assume "regex_test KEYWORD s"
  then obtain pre post where s: "s = pre @ post"
    and m: "(pre = [] \<and> word_here post) \<or> (\<exists>x xs. post = x # xs \<and> \<not> is_word x \<and> word_here xs)"
    unfolding regex_test_def search_iff rmatch_KEYWORD by auto
  from m show "bounded_keyword s"
  proof
    assume "pre = [] \<and> word_here post"
    then obtain u rest where "post = u @ rest" "same_word u trigger_word" "rest = [] \<or> \<not> is_word (hd rest)" "pre = []"
      unfolding word_here_def by blast
    with s have "s = [] @ u @ rest \<and> same_word u trigger_word \<and> (([]::jsstring) = [] \<or> \<not> is_word (last [])) \<and> (rest = [] \<or> \<not> is_word (hd rest))"
      by simp
    then show ?thesis unfolding bounded_keyword_def by blast
  next
    assume "\<exists>x xs. post = x # xs \<and> \<not> is_word x \<and> word_here xs"
    then obtain x xs u rest where "post = x # xs" "\<not> is_word x" "xs = u @ rest" "same_word u trigger_word" "rest = [] \<or> \<not> is_word (hd rest)"
      unfolding word_here_def by blast
    with s have "s = (pre @ [x]) @ u @ rest \<and> same_word u trigger_word \<and> (pre @ [x] = [] \<or> \<not> is_word (last (pre @ [x]))) \<and> (rest = [] \<or> \<not> is_word (hd rest))"
      by simp
    then show ?thesis unfolding bounded_keyword_def by blast
  qed
next
  assume "bounded_keyword s"
  then obtain pre w post where s: "s = pre @ w @ post" and w: "same_word w trigger_word"
    and l: "pre = [] \<or> \<not> is_word (last pre)" and r: "post = [] \<or> \<not> is_word (hd post)"
    unfolding bounded_keyword_def by blast
  have wh: "word_here (w @ post)" unfolding word_here_def using w r by blast
  show "regex_test KEYWORD s"
  proof (cases "pre = []")
    case True
    with s wh have "s = [] @ (w @ post) \<and> rmatch KEYWORD (True \<and> ([]::jsstring) = [], w @ post) \<noteq> []"
      by (simp add: rmatch_KEYWORD)
    then show ?thesis unfolding regex_test_def search_iff by blast
  next
    case False
    then have "pre = butlast pre @ [last pre]" by simp
    with s have "s = butlast pre @ (last pre # w @ post)" by (metis append.assoc append_Cons append_Nil)
    moreover have "rmatch KEYWORD (True \<and> butlast pre = [], last pre # w @ post) \<noteq> []"
      using False l wh by (simp add: rmatch_KEYWORD)
    ultimately show ?thesis unfolding regex_test_def search_iff by blast
  qed
qed

lemma space_not_word: "is_space c \<Longrightarrow> \<not> is_word c"
  by (auto simp: is_space_def is_word_def word_le_nat_alt)

lemma canon_A: "canon c = 0x41 \<Longrightarrow> is_word c"
  by (auto simp: canon_def is_word_def split: if_splits)

lemma canon_E: "canon c = 0x45 \<Longrightarrow> is_word c"
  by (auto simp: canon_def is_word_def split: if_splits)

lemma canon_trigger: "map canon trigger_word = [0x41, 0x54, 0x54, 0x45, 0x4E, 0x44, 0x41, 0x4E, 0x43, 0x45]"
  by (simp add: trigger_word_def canon_def)

lemma same_word_ends:
  assumes "same_word w trigger_word"
  shows "w \<noteq> []" and "is_word (hd w)" and "is_word (last w)"
proof -
  from assms have m: "map canon w = [0x41, 0x54, 0x54, 0x45, 0x4E, 0x44, 0x41, 0x4E, 0x43, 0x45]"
    by (simp add: same_word_def canon_trigger)
  then obtain c1 c2 c3 c4 c5 c6 c7 c8 c9 c10 where w: "w = [c1, c2, c3, c4, c5, c6, c7, c8, c9, c10]"
    by (auto simp: map_eq_Cons_conv)
  with m have "canon c1 = 0x41" "canon c10 = 0x45" by simp_all
  then have "is_word c1" "is_word c10" by (auto intro: canon_A canon_E)
  with w show "w \<noteq> []" and "is_word (hd w)" and "is_word (last w)" by simp_all
qed

lemma bounded_keyword_front:
  assumes c: "is_space c"
  shows "bounded_keyword (c # s) \<longleftrightarrow> bounded_keyword s"
proof
  assume "bounded_keyword (c # s)"
  then obtain pre w post where s: "c # s = pre @ w @ post" and w: "same_word w trigger_word"
    and l: "pre = [] \<or> \<not> is_word (last pre)" and r: "post = [] \<or> \<not> is_word (hd post)"
    unfolding bounded_keyword_def by blast
  have "pre \<noteq> []"
  proof
    assume "pre = []"
    with s same_word_ends(1)[OF w] have "hd w = c" by (cases w) auto
    with same_word_ends(2)[OF w] c show False by (simp add: space_not_word)
  qed
  then obtain pre' where pre: "pre = c # pre'" using s by (cases pre) auto
  with s l have "s = pre' @ w @ post \<and> (pre' = [] \<or> \<not> is_word (last pre'))" by (auto split: if_splits)
  with w r show "bounded_keyword s" unfolding bounded_keyword_def by blast
next
  assume "bounded_keyword s"
  then obtain pre w post where s: "s = pre @ w @ post" and w: "same_word w trigger_word"
    and l: "pre = [] \<or> \<not> is_word (last pre)" and r: "post = [] \<or> \<not> is_word (hd post)"
    unfolding bounded_keyword_def by blast
  from s l c have "c # s = (c # pre) @ w @ post \<and> (c # pre = [] \<or> \<not> is_word (last (c # pre)))"
    by (auto simp: space_not_word)
  with w r show "bounded_keyword (c # s)" unfolding bounded_keyword_def by blast
qed

lemma bounded_keyword_back:
  assumes c: "is_space c"
  shows "bounded_keyword (s @ [c]) \<longleftrightarrow> bounded_keyword s"
proof
  assume "bounded_keyword (s @ [c])"
  then obtain pre w post where s: "s @ [c] = pre @ w @ post" and w: "same_word w trigger_word"
    and l: "pre = [] \<or> \<not> is_word (last pre)" and r: "post = [] \<or> \<not> is_word (hd post)"
    unfolding bounded_keyword_def by blast
  obtain post' where s': "s = pre @ w @ post'" and r': "post' = [] \<or> \<not> is_word (hd post')"
  proof (cases post rule: rev_cases)
    case Nil
    from same_word_ends(1)[OF w] obtain w' y where wy: "w = w' @ [y]"
      by (cases w rule: rev_cases) auto
    with s Nil have "s @ [c] = (pre @ w') @ [y]" by simp
    then have "y = c" by (simp only: append1_eq_conv)
    with wy same_word_ends(3)[OF w] c have False by (simp add: space_not_word)
    then show ?thesis ..
  next
    case (snoc post' x)
    with s have "s @ [c] = (pre @ w @ post') @ [x]" by simp
    then have "s = pre @ w @ post'" by (simp only: append1_eq_conv)
    moreover from snoc r have "post' = [] \<or> \<not> is_word (hd post')" by (cases post') auto
    ultimately show ?thesis using that by blast
  qed
  with w l r' show "bounded_keyword s" unfolding bounded_keyword_def by blast
next
  assume "bounded_keyword s"
  then obtain pre w post where s: "s = pre @ w @ post" and w: "same_word w trigger_word"
    and l: "pre = [] \<or> \<not> is_word (last pre)" and r: "post = [] \<or> \<not> is_word (hd post)"
    unfolding bounded_keyword_def by blast
  from s r c have "s @ [c] = pre @ w @ (post @ [c]) \<and> (post @ [c] = [] \<or> \<not> is_word (hd (post @ [c])))"
    by (cases post) (auto simp: space_not_word)
  with w l show "bounded_keyword (s @ [c])" unfolding bounded_keyword_def by blast
qed

lemma bounded_keyword_dropWhile: "bounded_keyword (dropWhile is_space s) \<longleftrightarrow> bounded_keyword s"
  by (induction s) (simp_all add: bounded_keyword_front)

lemma bounded_keyword_dropWhile_rev: "bounded_keyword (rev (dropWhile is_space (rev s))) \<longleftrightarrow> bounded_keyword s"
  by (induction s rule: rev_induct) (simp_all add: bounded_keyword_back)

lemma bounded_keyword_trim: "bounded_keyword (trim s) \<longleftrightarrow> bounded_keyword s"
  by (simp add: trim_def bounded_keyword_dropWhile_rev bounded_keyword_dropWhile)

lemma bounded_keyword_nonempty: "bounded_keyword s \<Longrightarrow> s \<noteq> []"
  unfolding bounded_keyword_def using same_word_ends(1) by auto

lemma keyword_detected_iff: "keyword_detected msg \<longleftrightarrow> bounded_keyword (raw_text msg)"
  unfolding keyword_detected_def extractText_def Let_def regex_test_KEYWORD bounded_keyword_trim
  using bounded_keyword_nonempty[of "trim (raw_text msg)"] bounded_keyword_trim[of "raw_text msg"] by blast



section \<open>The fan-out engine\<close>

subsection \<open>Running the store adapter and one turn of the loop\<close>

lemmas js_defs = ret_def throw_def bind_js_def try_catch_def promise_all2_def
lemmas prim_defs = emit_def gateway_call_def sendMessage_def answerCbQuery_def editMessageText_def
  reply_def sleep_def console_error_def kv_call_def kv_sadd_def kv_srem_def kv_sismember_def
  kv_smembers_def

lemma setSub_run:
  "setSub key u en w =
     (Inr (),
      case kv_script w (kv_calls w) of
        None \<Rightarrow> w\<lparr>kv_calls := Suc (kv_calls w),
                  kv := (kv w)(key := (if en then (if u \<in> set (kv w key) then kv w key else kv w key @ [u])
                                       else removeAll u (kv w key))),
                  trace := trace w @ [if en then KvSadd key u True else KvSrem key u True]\<rparr>
      | Some e \<Rightarrow> w\<lparr>kv_calls := Suc (kv_calls w),
                    trace := trace w @ [if en then KvSadd key u False else KvSrem key u False,
                                        ConsoleError (KvSubscriptionError key e)]\<rparr>)"
  by (auto simp: setSub_def js_defs prim_defs split: option.splits)

lemma removeFromAllLists_run:
  "removeFromAllLists u w =
     (Inr (), snd (setSub SUBS_CLASS_KEY u False (snd (setSub SUBS_ATTENDANCE_KEY u False w))))"
  by (simp add: removeFromAllLists_def js_defs setSub_run split: prod.splits)

lemma notify_one_run:
  "notify_one p u w =
     (Inr (),
      case gateway_script w (gateway_calls w) of
        None \<Rightarrow> w\<lparr>gateway_calls := Suc (gateway_calls w),
                  trace := trace w @ [SendMessage u p None, Sleep 50]\<rparr>
      | Some e \<Rightarrow>
          (let w1 = w\<lparr>gateway_calls := Suc (gateway_calls w),
                      trace := trace w @ [SendMessage u p (Some e),
                                          ConsoleError (SendError u (code_of e) (desc_of e))]\<rparr>
           in if String_code (code_of e) = ''403'' then snd (removeFromAllLists u w1) else w1))"
  by (auto simp: notify_one_def js_defs prim_defs removeFromAllLists_run Let_def split: option.splits)

lemma emitted_self: "emitted w w = []" by (simp add: emitted_def)
lemma extends_refl: "extends w w" by (simp add: extends_def)
lemma extends_trans: "extends w w1 \<Longrightarrow> extends w1 w2 \<Longrightarrow> extends w w2"
  by (auto simp: extends_def)
lemma extends_emitted: "extends w w' \<Longrightarrow> trace w' = trace w @ emitted w w'"
  by (auto simp: extends_def emitted_def)
lemma emitted_trans:
  "extends w w1 \<Longrightarrow> extends w1 w2 \<Longrightarrow> emitted w w2 = emitted w w1 @ emitted w1 w2"
  by (auto simp: extends_def emitted_def)

lemma digit_char_cases:
  "digit_char d = c \<Longrightarrow> c \<in> set ''0123456789''"
  unfolding digit_char_def using nth_mem[of "d mod 10" "''0123456789''"] by simp

lemma String_nat_nonempty: "String_nat n \<noteq> []"
  by (subst String_nat.simps) simp

lemma digit_char_inj: "digit_char d = digit_char d' \<longleftrightarrow> d mod 10 = d' mod 10"
proof -
  have d: "distinct ''0123456789''" by simp
  have "d mod 10 < length ''0123456789''" "d' mod 10 < length ''0123456789''" by simp_all
  then show ?thesis unfolding digit_char_def using nth_eq_iff_index_eq[OF d] by blast
qed

lemma digit_3: "digit_char d = CHR ''3'' \<longleftrightarrow> d mod 10 = 3"
  using digit_char_inj[of d 3] by (simp add: digit_char_def)
lemma digit_0: "digit_char d = CHR ''0'' \<longleftrightarrow> d mod 10 = 0"
  using digit_char_inj[of d 0] by (simp add: digit_char_def)
lemma digit_4: "digit_char d = CHR ''4'' \<longleftrightarrow> d mod 10 = 4"
  using digit_char_inj[of d 4] by (simp add: digit_char_def)

lemma String_nat_snoc:
  "String_nat k = xs @ [c] \<Longrightarrow> xs \<noteq> [] \<Longrightarrow>
   \<not> k < 10 \<and> String_nat (k div 10) = xs \<and> digit_char k = c"
  by (subst (asm) String_nat.simps) (auto split: if_splits)

lemma String_nat_single: "String_nat k = [c] \<Longrightarrow> k < 10 \<and> digit_char k = c"
  by (subst (asm) String_nat.simps) (auto split: if_splits simp: String_nat_nonempty)

lemma String_nat_403: "String_nat k = ''403'' \<longleftrightarrow> k = 403"
proof
  assume "String_nat k = ''403''"
  then have a: "String_nat k = ''40'' @ [CHR ''3'']" by simp
  from String_nat_snoc[OF a] have b: "String_nat (k div 10) = ''4'' @ [CHR ''0'']" and d3: "k mod 10 = 3"
    by (simp_all add: digit_3)
  from String_nat_snoc[OF b] have c: "String_nat (k div 10 div 10) = [CHR ''4'']"
    and d0: "(k div 10) mod 10 = 0"
    by (simp_all add: digit_0)
  from String_nat_single[OF c] have "k div 10 div 10 < 10" "(k div 10 div 10) mod 10 = 4"
    by (simp_all add: digit_4)
  then have q: "k div 10 div 10 = 4" by simp
  have "k div 10 = 10 * (k div 10 div 10) + (k div 10) mod 10" by simp
  with q d0 have "k div 10 = 40" by simp
  moreover have "k = 10 * (k div 10) + k mod 10" by simp
  ultimately show "k = 403" using d3 by simp
next
  assume "k = 403" then show "String_nat k = ''403''"
    by (simp add: String_nat.simps digit_char_def)
qed

lemma String_int_403: "String_int n = ''403'' \<longleftrightarrow> n = 403"
  by (auto simp: String_int_def String_nat_403)

lemma String_code_403: "String_code c = ''403'' \<longleftrightarrow> c = Some 403"
  by (cases c) (simp_all add: String_code_def String_int_403)

lemma paced_from_append:
  "paced_from b ms xs \<Longrightarrow> paced_from False ms ys \<Longrightarrow> paced_from b ms (xs @ ys)"
  by (induction xs arbitrary: b) (auto split: event.splits)

lemma paced_append: "paced ms xs \<Longrightarrow> paced ms ys \<Longrightarrow> paced ms (xs @ ys)"
  by (simp add: paced_def paced_from_append)

lemma removeFromAllLists_trace:
  "trace (snd (removeFromAllLists u w)) = trace w @ rm_events u w"
  by (simp add: removeFromAllLists_run setSub_run rm_events_def split: option.splits)

lemma removeFromAllLists_kv:
  "kv (snd (removeFromAllLists u w)) k =
     (if kv_script w (case k of SUBS_ATTENDANCE_KEY \<Rightarrow> kv_calls w | SUBS_CLASS_KEY \<Rightarrow> Suc (kv_calls w)) = None
      then removeAll u (kv w k) else kv w k)"
  by (cases k) (auto simp add: removeFromAllLists_run setSub_run split: option.splits)

lemma removeFromAllLists_frame:
  "kv_script (snd (removeFromAllLists u w)) = kv_script w"
  "gateway_script (snd (removeFromAllLists u w)) = gateway_script w"
  "gateway_calls (snd (removeFromAllLists u w)) = gateway_calls w"
  "kv_calls (snd (removeFromAllLists u w)) = Suc (Suc (kv_calls w))"
  "db_users (snd (removeFromAllLists u w)) = db_users w"
  by (simp_all add: removeFromAllLists_run setSub_run split: option.splits)

lemma notify_one_trace: "trace (snd (notify_one p u w)) = trace w @ step_events p u w"
  by (simp add: notify_one_run step_events_def String_code_403 removeFromAllLists_trace Let_def
      rm_events_def split: option.splits)

lemma notify_one_kv:
  "kv (snd (notify_one p u w)) k =
     (case gateway_script w (gateway_calls w) of
        None \<Rightarrow> kv w k
      | Some e \<Rightarrow> if code_of e = Some 403
                  \<and> kv_script w (case k of SUBS_ATTENDANCE_KEY \<Rightarrow> kv_calls w | SUBS_CLASS_KEY \<Rightarrow> Suc (kv_calls w)) = None
                  then removeAll u (kv w k) else kv w k)"
  by (cases k) (auto simp add: notify_one_run String_code_403 removeFromAllLists_kv Let_def split: option.splits)

lemma notify_one_frame:
  "fst (notify_one p u w) = Inr ()"
  "kv_script (snd (notify_one p u w)) = kv_script w"
  "gateway_script (snd (notify_one p u w)) = gateway_script w"
  "gateway_calls (snd (notify_one p u w)) = Suc (gateway_calls w)"
  "db_users (snd (notify_one p u w)) = db_users w"
  by (simp_all add: notify_one_run removeFromAllLists_frame Let_def split: option.splits)

lemma notifyAllUsers_Nil: "notifyAllUsers [] pv l w = (Inr (), w)"
  by (simp add: notifyAllUsers_def for_each_def)

lemma notifyAllUsers_Cons:
  "notifyAllUsers (u # us) pv l w
     = notifyAllUsers us pv l (snd (notify_one (AttendanceNotice pv l) u w))"
  using notify_one_frame(1)[of "AttendanceNotice pv l" u w]
  by (cases "notify_one (AttendanceNotice pv l) u w") (simp add: notifyAllUsers_def for_each_def)

lemma notifyAllUsers_returns: "fst (notifyAllUsers us pv l w) = Inr ()"
  by (induction us arbitrary: w) (simp_all add: notifyAllUsers_Nil notifyAllUsers_Cons)

lemma notifyAllUsers_frame:
  "kv_script (snd (notifyAllUsers us pv l w)) = kv_script w
   \<and> gateway_script (snd (notifyAllUsers us pv l w)) = gateway_script w
   \<and> gateway_calls (snd (notifyAllUsers us pv l w)) = gateway_calls w + length us
   \<and> db_users (snd (notifyAllUsers us pv l w)) = db_users w"
  by (induction us arbitrary: w) (simp_all add: notifyAllUsers_Nil notifyAllUsers_Cons notify_one_frame)

lemma notify_one_extends: "extends w (snd (notify_one p u w))"
  by (simp add: extends_def notify_one_trace)

lemma notifyAllUsers_extends: "extends w (snd (notifyAllUsers us pv l w))"
proof (induction us arbitrary: w)
  case Nil
  then show ?case by (simp add: notifyAllUsers_Nil extends_refl)
next
  case (Cons u us)
  show ?case unfolding notifyAllUsers_Cons
    using extends_trans[OF notify_one_extends Cons] .
qed

lemma notify_one_emitted: "emitted w (snd (notify_one p u w)) = step_events p u w"
  by (simp add: emitted_def notify_one_trace)

lemma notifyAllUsers_emitted_Cons:
  "emitted w (snd (notifyAllUsers (u # us) pv l w))
     = step_events (AttendanceNotice pv l) u w
       @ emitted (snd (notify_one (AttendanceNotice pv l) u w))
           (snd (notifyAllUsers us pv l (snd (notify_one (AttendanceNotice pv l) u w))))"
  unfolding notifyAllUsers_Cons
  using emitted_trans[OF notify_one_extends notifyAllUsers_extends]
  by (simp add: notify_one_emitted)

lemma attempts_append: "attempts (xs @ ys) = attempts xs @ attempts ys"
  by (simp add: attempts_def)

lemma attempts_simps: "attempts [] = []" "attempts (e # es) = attempt_of e @ attempts es"
  by (simp_all add: attempts_def)

lemma attempts_rm: "attempts (rm_events u w) = []"
  by (simp add: attempts_simps rm_events_def split: option.splits)

lemma attempts_step: "attempts (step_events p u w) = [u]"
  by (simp add: step_events_def attempts_simps attempts_append attempts_rm split: option.splits)

lemma notifyAllUsers_attempts: "attempts (emitted w (snd (notifyAllUsers us pv l w))) = us"
proof (induction us arbitrary: w)
  case Nil
  then show ?case by (simp add: notifyAllUsers_Nil emitted_self attempts_simps)
next
  case (Cons u us)
  show ?case
    by (simp add: notifyAllUsers_emitted_Cons attempts_append attempts_step Cons)
qed

lemma paced_step: "paced 50 (step_events p u w)"
  by (simp add: paced_def step_events_def rm_events_def split: option.splits)

lemma notifyAllUsers_paced: "paced 50 (emitted w (snd (notifyAllUsers us pv l w)))"
proof (induction us arbitrary: w)
  case Nil
  then show ?case by (simp add: notifyAllUsers_Nil emitted_self paced_def)
next
  case (Cons u us)
  show ?case
    by (simp add: notifyAllUsers_emitted_Cons paced_append paced_step Cons)
qed

lemma kv_step:
  "set (kv (snd (notify_one p u w)) k)
     = set (kv w k) - {x. KvSrem k x True \<in> set (step_events p u w)}"
  by (cases k) (auto simp: notify_one_kv step_events_def rm_events_def split: option.splits)

lemma notifyAllUsers_kv:
  "set (kv (snd (notifyAllUsers us pv l w)) k)
     = set (kv w k) - {x. KvSrem k x True \<in> set (emitted w (snd (notifyAllUsers us pv l w)))}"
proof (induction us arbitrary: w)
  case Nil
  then show ?case by (simp add: notifyAllUsers_Nil emitted_self)
next
  case (Cons u us)
  show ?case
    unfolding notifyAllUsers_emitted_Cons
    unfolding notifyAllUsers_Cons
    by (subst Cons) (auto simp: kv_step)
qed

lemma removal_invoked_step:
  "SendMessage x p' (Some e) \<in> set (step_events p u w) \<Longrightarrow> code_of e = Some 403 \<Longrightarrow>
   \<exists>b. KvSrem k x b \<in> set (step_events p u w)"
  by (cases k) (auto simp: step_events_def rm_events_def split: option.splits)

lemma notifyAllUsers_removal_invoked:
  "SendMessage x p' (Some e) \<in> set (emitted w (snd (notifyAllUsers us pv l w))) \<Longrightarrow>
   code_of e = Some 403 \<Longrightarrow>
   \<exists>b. KvSrem k x b \<in> set (emitted w (snd (notifyAllUsers us pv l w)))"
proof (induction us arbitrary: w)
  case Nil
  then show ?case by (simp add: notifyAllUsers_Nil emitted_self)
next
  case (Cons u us)
  from Cons.prems show ?case
    unfolding notifyAllUsers_emitted_Cons
    using removal_invoked_step[of x p' e "AttendanceNotice pv l" u w k]
      Cons.IH[of "snd (notify_one (AttendanceNotice pv l) u w)"]
    by auto
qed

lemma removal_only_step:
  "KvSrem k x b \<in> set (step_events p u w) \<Longrightarrow>
   \<exists>p' e. SendMessage x p' (Some e) \<in> set (step_events p u w) \<and> code_of e = Some 403"
  by (auto simp: step_events_def rm_events_def split: option.splits if_splits)

lemma notifyAllUsers_removal_only:
  "KvSrem k x b \<in> set (emitted w (snd (notifyAllUsers us pv l w))) \<Longrightarrow>
   \<exists>p' e. SendMessage x p' (Some e) \<in> set (emitted w (snd (notifyAllUsers us pv l w)))
          \<and> code_of e = Some 403"
proof (induction us arbitrary: w)
  case Nil
  then show ?case by (simp add: notifyAllUsers_Nil emitted_self)
next
  case (Cons u us)
  from Cons.prems show ?case
    unfolding notifyAllUsers_emitted_Cons
    using removal_only_step[of k x b "AttendanceNotice pv l" u w]
      Cons.IH[of "snd (notify_one (AttendanceNotice pv l) u w)"]
    by auto
qed

lemma listSubs_run:
  "listSubs k w =
     (case kv_script w (kv_calls w) of
        None \<Rightarrow> (Inr (kv w k), w\<lparr>kv_calls := Suc (kv_calls w), trace := trace w @ [KvSmembers k True]\<rparr>)
      | Some e \<Rightarrow> (Inr [], w\<lparr>kv_calls := Suc (kv_calls w),
                     trace := trace w @ [KvSmembers k False, ConsoleError (KvSmembersError k e)]\<rparr>))"
  by (auto simp: listSubs_def js_defs prim_defs split: option.splits)

lemma isSub_run:
  "isSub k u w =
     (case kv_script w (kv_calls w) of
        None \<Rightarrow> (Inr (u \<in> set (kv w k)),
                 w\<lparr>kv_calls := Suc (kv_calls w), trace := trace w @ [KvSismember k u True]\<rparr>)
      | Some e \<Rightarrow> (Inr False, w\<lparr>kv_calls := Suc (kv_calls w),
                     trace := trace w @ [KvSismember k u False, ConsoleError (KvSismemberError k e)]\<rparr>))"
  by (auto simp: isSub_def js_defs prim_defs split: option.splits)

lemma keyword_detected_None: "\<not> keyword_detected None"
  by (simp add: keyword_detected_def extractText_def raw_text_def read_opt_def or_else_def trim_def)

lemma on_message_skip:
  "read_opt chat_kind (ctx_chat ctx) \<noteq> Some Group \<and> read_opt chat_kind (ctx_chat ctx) \<noteq> Some Supergroup
   \<or> \<not> keyword_detected (ctx_message ctx) \<Longrightarrow> on_message ctx w = (Inr (), w)"
  by (auto simp: on_message_def ret_def)

lemma on_message_run:
  assumes "read_opt chat_kind (ctx_chat ctx) = Some Group \<or> read_opt chat_kind (ctx_chat ctx) = Some Supergroup"
    and "keyword_detected (ctx_message ctx)"
  shows "\<exists>pv link. on_message ctx w
           = bind_js (listSubs SUBS_ATTENDANCE_KEY) (\<lambda>subs. notifyAllUsers subs pv link) w"
proof -
  from assms(1) obtain c where c: "ctx_chat ctx = Some c"
    by (cases "ctx_chat ctx") (auto simp: read_opt_def)
  from assms(2) obtain m where m: "ctx_message ctx = Some m"
    using keyword_detected_None by (cases "ctx_message ctx") auto
  obtain link where l: "buildLink (Some c) (message_id m) = Inr link"
    using buildLink_returns by blast
  show ?thesis
    using assms c m l by (auto simp: on_message_def read_prop_def Let_def)
qed

lemma bind_listSubs_returns:
  "fst (bind_js (listSubs k) (\<lambda>subs. notifyAllUsers subs pv link) w) = Inr ()"
  by (simp add: bind_js_def listSubs_run notifyAllUsers_returns split: option.splits)

lemma on_message_returns: "fst (on_message ctx w) = Inr ()"
proof (cases "(read_opt chat_kind (ctx_chat ctx) = Some Group \<or> read_opt chat_kind (ctx_chat ctx) = Some Supergroup)
               \<and> keyword_detected (ctx_message ctx)")
  case True
  then obtain pv link where "on_message ctx w
           = bind_js (listSubs SUBS_ATTENDANCE_KEY) (\<lambda>subs. notifyAllUsers subs pv link) w"
    using on_message_run by blast
  then show ?thesis by (simp add: bind_listSubs_returns)
next
  case False
  then show ?thesis using on_message_skip[of ctx w] by auto
qed

lemma fold_js_trace:
  assumes step: "\<And>s x w. \<exists>s1 T. fst (body s x w) = Inr s1 \<and> trace (snd (body s x w)) = trace w @ T \<and> P T"
    and nil: "P []" and app: "\<And>a b. P a \<Longrightarrow> P b \<Longrightarrow> P (a @ b)"
  shows "\<exists>s' T. fst (fold_js body s xs w) = Inr s'
            \<and> trace (snd (fold_js body s xs w)) = trace w @ T \<and> P T"
proof (induction xs arbitrary: s w)
  case Nil
  show ?case using nil by simp
next
  case (Cons x xs)
  obtain s1 T1 where b: "fst (body s x w) = Inr s1" "trace (snd (body s x w)) = trace w @ T1" "P T1"
    using step by blast
  obtain s' T2 where r: "fst (fold_js body s1 xs (snd (body s x w))) = Inr s'"
    "trace (snd (fold_js body s1 xs (snd (body s x w)))) = trace (snd (body s x w)) @ T2" "P T2"
    using Cons by blast
  have "fold_js body s (x # xs) w = fold_js body s1 xs (snd (body s x w))"
    using b(1) by (cases "body s x w") simp
  with b r app[of T1 T2] show ?case by auto
qed

lemma fold_js_attempts:
  assumes step: "\<And>s x w. \<exists>s1 T. fst (body s x w) = Inr s1 \<and> trace (snd (body s x w)) = trace w @ T
                    \<and> attempts T = [x]"
  shows "\<exists>s' T. fst (fold_js body s xs w) = Inr s'
            \<and> trace (snd (fold_js body s xs w)) = trace w @ T \<and> attempts T = xs"
proof (induction xs arbitrary: s w)
  case Nil
  show ?case by (simp add: attempts_simps)
next
  case (Cons x xs)
  obtain s1 T1 where b: "fst (body s x w) = Inr s1" "trace (snd (body s x w)) = trace w @ T1"
    "attempts T1 = [x]"
    using step by blast
  obtain s' T2 where r: "fst (fold_js body s1 xs (snd (body s x w))) = Inr s'"
    "trace (snd (fold_js body s1 xs (snd (body s x w)))) = trace (snd (body s x w)) @ T2"
    "attempts T2 = xs"
    using Cons by blast
  have "fold_js body s (x # xs) w = fold_js body s1 xs (snd (body s x w))"
    using b(1) by (cases "body s x w") simp
  with b r show ?case by (auto simp: attempts_append)
qed

lemma cron_rm_returns: "fst (removeFromAllLists_cron u w) = Inr ()"
  by (auto simp: removeFromAllLists_cron_def js_defs prim_defs Let_def split: option.splits)

lemma cron_rm_trace:
  "\<exists>T. trace (snd (removeFromAllLists_cron u w)) = trace w @ T \<and> attempts T = [] \<and> paced 50 T"
  by (auto simp: removeFromAllLists_cron_def js_defs prim_defs attempts_simps paced_def Let_def
      split: option.splits)

lemma remind_one_step:
  "\<exists>c1 T. fst (remind_one txt c u w) = Inr c1
     \<and> trace (snd (remind_one txt c u w)) = trace w @ T
     \<and> attempts T = [u] \<and> paced 50 T"
proof (cases "gateway_script w (gateway_calls w)")
  case None
  then show ?thesis
    by (simp add: remind_one_def js_defs prim_defs attempts_simps paced_def)
next
  case (Some e)
  define w1 where "w1 = w\<lparr>gateway_calls := Suc (gateway_calls w),
               trace := trace w @ [SendMessage u (ClassReminder txt) (Some e),
                                   ConsoleError (SendError u (code_of e) (desc_of e))]\<rparr>"
  have t1: "trace w1 = trace w @ [SendMessage u (ClassReminder txt) (Some e),
                                   ConsoleError (SendError u (code_of e) (desc_of e))]"
    by (simp add: w1_def)
  have run: "remind_one txt c u w =
      (if code_of e = Some 403
       then (case removeFromAllLists_cron u w1 of
               (Inl x, w2) \<Rightarrow> (Inl x, w2)
             | (Inr _, w2) \<Rightarrow> (Inr (c\<lparr>failed := failed c + 1, removed := removed c + 1\<rparr>), w2))
       else (Inr (c\<lparr>failed := failed c + 1\<rparr>), w1))"
    using Some unfolding w1_def
    by (simp add: remind_one_def ret_def bind_js_def try_catch_def sendMessage_def
        gateway_call_def console_error_def emit_def String_code_403 Let_def
        split: prod.splits sum.splits)
  show ?thesis
  proof (cases "code_of e = Some 403")
    case True
    obtain T where T: "trace (snd (removeFromAllLists_cron u w1)) = trace w1 @ T"
      "attempts T = []" "paced 50 T"
      using cron_rm_trace by blast
    have p: "paced 50 ([SendMessage u (ClassReminder txt) (Some e),
                        ConsoleError (SendError u (code_of e) (desc_of e))] @ T)"
      using T(3) by (intro paced_append) (simp_all add: paced_def)
    obtain w2 where w2: "removeFromAllLists_cron u w1 = (Inr (), w2)"
      using cron_rm_returns[of u w1] by (cases "removeFromAllLists_cron u w1") auto
    with T t1 p True show ?thesis
      by (simp add: run attempts_simps attempts_append)
  next
    case False
    with t1 show ?thesis
      by (simp add: run attempts_simps paced_def)
  qed
qed

lemma paced_Nil: "paced ms []" by (simp add: paced_def)

lemma reminder_loop:
  "\<exists>c' T. fst (fold_js (remind_one txt) c us w) = Inr c'
     \<and> trace (snd (fold_js (remind_one txt) c us w)) = trace w @ T
     \<and> attempts T = us"
  using fold_js_attempts[of "remind_one txt" c us w] remind_one_step by blast

lemma reminder_loop_paced:
  "\<exists>c' T. fst (fold_js (remind_one txt) c us w) = Inr c'
     \<and> trace (snd (fold_js (remind_one txt) c us w)) = trace w @ T
     \<and> paced 50 T"
  using fold_js_trace[of "remind_one txt" "paced 50" c us w] remind_one_step paced_Nil paced_append
  by blast

lemma notify_one_polling_step:
  "\<exists>T. fst (notify_one_polling p u w) = Inr ()
     \<and> trace (snd (notify_one_polling p u w)) = trace w @ T
     \<and> attempts T = [u] \<and> paced 60 T"
  by (auto simp: notify_one_polling_def markBlocked_def js_defs prim_defs attempts_simps paced_def
      Let_def split: option.splits)

lemma polling_loop:
  "\<exists>T. fst (notifyAllUsers_polling pv l w) = Inr ()
     \<and> trace (snd (notifyAllUsers_polling pv l w)) = trace w @ T
     \<and> attempts T = listActiveUsers w \<and> paced 60 T"
proof -
  let ?b = "\<lambda>(_::unit) x. notify_one_polling (AttendanceNotice pv l) x"
  have s: "\<And>s x w. \<exists>s1 T. fst (?b s x w) = Inr s1 \<and> trace (snd (?b s x w)) = trace w @ T
                  \<and> attempts T = [x]"
    using notify_one_polling_step by blast
  have s': "\<And>s x w. \<exists>s1 T. fst (?b s x w) = Inr s1 \<and> trace (snd (?b s x w)) = trace w @ T
                  \<and> paced 60 T"
    using notify_one_polling_step by blast
  from fold_js_attempts[of ?b "()" "listActiveUsers w" w, OF s]
    fold_js_trace[of ?b "paced 60" "()" "listActiveUsers w" w, OF s' paced_Nil paced_append]
  show ?thesis
    by (auto simp: notifyAllUsers_polling_def for_each_def)
qed

lemma paced_from_delivery:
  "paced_from b ms (xs @ SendMessage u p None # ys) \<Longrightarrow> \<exists>zs. ys = Sleep ms # zs"
proof (induction xs arbitrary: b)
  case Nil
  then show ?case by (cases ys) (auto split: event.splits)
next
  case (Cons x xs)
  then show ?case by (auto split: event.splits)
qed

lemma paced_from_suffix:
  "paced_from b ms (xs @ SendMessage u p (Some e) # ys) \<Longrightarrow> paced_from False ms ys"
  by (induction xs arbitrary: b) (auto split: event.splits)

lemma paced_from_no_pause:
  "paced_from False ms ys \<Longrightarrow> Sleep n \<notin> set (takeWhile (\<lambda>e. attempt_of e = []) ys)"
  by (induction ys) (auto split: event.splits)

lemmas run_simps = notifyAllUsers_Cons notifyAllUsers_Nil notify_one_run removeFromAllLists_run
  setSub_run emitted_def world0_def blocked_error_def network_error_def store_error_def
  code_of_def desc_of_def String_code_403 Let_def

subsection \<open>Every recipient is attempted; pauses follow delivered sends\<close>

text \<open>
  C1. Given a list of recipients, the fan-out engine returns normally and its send attempts
  are exactly the recipients of the list, one attempt each and in the order of the list,
  whatever the gateway answers to each attempt and whatever the store does: no failure ends
  the loop early. The same holds for the send loop of the scheduled reminder.
\<close>

theorem fan_out_attempts_every_recipient:
  "fst (notifyAllUsers us pv l w) = Inr ()
   \<and> trace (snd (notifyAllUsers us pv l w)) = trace w @ emitted w (snd (notifyAllUsers us pv l w))
   \<and> attempts (emitted w (snd (notifyAllUsers us pv l w))) = us
   \<and> length (attempts (emitted w (snd (notifyAllUsers us pv l w)))) = length us
   \<and> (\<exists>c' T. fst (fold_js (remind_one txt) c us w) = Inr c'
          \<and> trace (snd (fold_js (remind_one txt) c us w)) = trace w @ T
          \<and> attempts T = us \<and> length (attempts T) = length us)"
proof (intro conjI)
  show "fst (notifyAllUsers us pv l w) = Inr ()" by (rule notifyAllUsers_returns)
  show "trace (snd (notifyAllUsers us pv l w)) = trace w @ emitted w (snd (notifyAllUsers us pv l w))"
    by (rule extends_emitted[OF notifyAllUsers_extends])
  show "attempts (emitted w (snd (notifyAllUsers us pv l w))) = us"
    by (rule notifyAllUsers_attempts)
  then show "length (attempts (emitted w (snd (notifyAllUsers us pv l w)))) = length us"
    by simp
  show "\<exists>c' T. fst (fold_js (remind_one txt) c us w) = Inr c'
          \<and> trace (snd (fold_js (remind_one txt) c us w)) = trace w @ T
          \<and> attempts T = us \<and> length (attempts T) = length us"
    using reminder_loop[of _ c us w] by auto
qed

text \<open>
  Three recipients; the first attempt is answered with the permanent block and the second
  with a network error, while every call to the store fails: all three are attempted.
\<close>

theorem fan_out_attempts_every_recipient_witness:
  "gateway_script (world0\<lparr>gateway_script := (\<lambda>n. if n = 0 then Some blocked_error
                                                 else if n = 1 then Some network_error else None),
                          kv_script := (\<lambda>n. Some store_error)\<rparr>) 0 = Some blocked_error
   \<and> fst (notifyAllUsers [7, 8, 9] a_preview None
            (world0\<lparr>gateway_script := (\<lambda>n. if n = 0 then Some blocked_error
                                            else if n = 1 then Some network_error else None),
                    kv_script := (\<lambda>n. Some store_error)\<rparr>)) = Inr ()
   \<and> attempts (emitted
         (world0\<lparr>gateway_script := (\<lambda>n. if n = 0 then Some blocked_error
                                         else if n = 1 then Some network_error else None),
                 kv_script := (\<lambda>n. Some store_error)\<rparr>)
         (snd (notifyAllUsers [7, 8, 9] a_preview None
                (world0\<lparr>gateway_script := (\<lambda>n. if n = 0 then Some blocked_error
                                                else if n = 1 then Some network_error else None),
                        kv_script := (\<lambda>n. Some store_error)\<rparr>)))) = [7, 8, 9]"
  using fan_out_attempts_every_recipient [of "[7, 8, 9]" a_preview None
      "world0\<lparr>gateway_script := (\<lambda>n. if n = 0 then Some blocked_error
                                      else if n = 1 then Some network_error else None),
              kv_script := (\<lambda>n. Some store_error)\<rparr>"]
  by (simp add: world0_def)

lemma paced_meaning:
  "paced ms T \<Longrightarrow>
     (\<forall>xs u p ys. T = xs @ SendMessage u p None # ys \<longrightarrow> (\<exists>zs. ys = Sleep ms # zs))
   \<and> (\<forall>xs u p e ys n. T = xs @ SendMessage u p (Some e) # ys \<longrightarrow>
          Sleep n \<notin> set (takeWhile (\<lambda>x. attempt_of x = []) ys))"
  unfolding paced_def
  using paced_from_delivery paced_from_suffix paced_from_no_pause by blast

text \<open>
  C3 (as amended). In the fan-out engine a pause of 50 time units follows directly every
  send that was delivered (60 in the fan-out of the polling bot, 50 in the send loop of the
  reminder), and pauses occur nowhere else: after a failed attempt the engine logs the error,
  removes the recipient when the failure is the permanent block, and goes on to the next
  recipient with no pause in between.
\<close>

theorem pause_follows_delivered_send:
  "paced 50 (emitted w (snd (notifyAllUsers us pv l w)))
   \<and> (\<exists>c' T. fst (fold_js (remind_one txt) c us w) = Inr c'
          \<and> trace (snd (fold_js (remind_one txt) c us w)) = trace w @ T \<and> paced 50 T)
   \<and> (\<exists>T. trace (snd (notifyAllUsers_polling pv l w)) = trace w @ T \<and> paced 60 T)
   \<and> (paced ms T \<longrightarrow>
        (\<forall>xs u p ys. T = xs @ SendMessage u p None # ys \<longrightarrow> (\<exists>zs. ys = Sleep ms # zs))
        \<and> (\<forall>xs u p e ys n. T = xs @ SendMessage u p (Some e) # ys \<longrightarrow>
              Sleep n \<notin> set (takeWhile (\<lambda>x. attempt_of x = []) ys)))"
proof (intro conjI)
  show "paced 50 (emitted w (snd (notifyAllUsers us pv l w)))" by (rule notifyAllUsers_paced)
  show "\<exists>c' T. fst (fold_js (remind_one txt) c us w) = Inr c'
          \<and> trace (snd (fold_js (remind_one txt) c us w)) = trace w @ T \<and> paced 50 T"
    by (rule reminder_loop_paced)
  show "\<exists>T. trace (snd (notifyAllUsers_polling pv l w)) = trace w @ T \<and> paced 60 T"
    using polling_loop[of pv l w] by blast
  show "paced ms T \<longrightarrow>
        (\<forall>xs u p ys. T = xs @ SendMessage u p None # ys \<longrightarrow> (\<exists>zs. ys = Sleep ms # zs))
        \<and> (\<forall>xs u p e ys n. T = xs @ SendMessage u p (Some e) # ys \<longrightarrow>
              Sleep n \<notin> set (takeWhile (\<lambda>x. attempt_of x = []) ys))"
    using paced_meaning by blast
qed

lemma two_recipients_first_fails:
  "emitted (world0\<lparr>gateway_script := (\<lambda>n. if n = 0 then Some network_error else None)\<rparr>)
     (snd (notifyAllUsers [7, 8] a_preview None
            (world0\<lparr>gateway_script := (\<lambda>n. if n = 0 then Some network_error else None)\<rparr>)))
   = [SendMessage 7 (AttendanceNotice a_preview None) (Some network_error),
      ConsoleError (SendError 7 None ''request failed''),
      SendMessage 8 (AttendanceNotice a_preview None) None, Sleep 50]"
  by (simp add: run_simps)

theorem pause_follows_delivered_send_witness:
  "paced 50 [SendMessage 7 (AttendanceNotice a_preview None) (Some network_error),
             ConsoleError (SendError 7 None ''request failed''),
             SendMessage 8 (AttendanceNotice a_preview None) None, Sleep 50]
   \<and> Sleep 50 \<notin> set (takeWhile (\<lambda>x. attempt_of x = [])
        [ConsoleError (SendError 7 None ''request failed''),
         SendMessage 8 (AttendanceNotice a_preview None) None, Sleep 50])"
proof -
  let ?w = "world0\<lparr>gateway_script := (\<lambda>n. if n = 0 then Some network_error else None)\<rparr>"
  let ?T = "[SendMessage 7 (AttendanceNotice a_preview None) (Some network_error),
             ConsoleError (SendError 7 None ''request failed''),
             SendMessage 8 (AttendanceNotice a_preview None) None, Sleep 50]"
  from pause_follows_delivered_send [of ?w "[7, 8]" a_preview None _ _ 50 ?T]
  have p: "paced 50 ?T"
    and m: "paced 50 ?T \<longrightarrow>
        (\<forall>xs u p e ys n. ?T = xs @ SendMessage u p (Some e) # ys \<longrightarrow>
              Sleep n \<notin> set (takeWhile (\<lambda>x. attempt_of x = []) ys))"
    by (simp_all only: two_recipients_first_fails) blast+
  from m p have "?T = [] @ SendMessage 7 (AttendanceNotice a_preview None) (Some network_error)
          # [ConsoleError (SendError 7 None ''request failed''),
             SendMessage 8 (AttendanceNotice a_preview None) None, Sleep 50] \<longrightarrow>
      Sleep 50 \<notin> set (takeWhile (\<lambda>x. attempt_of x = [])
        [ConsoleError (SendError 7 None ''request failed''),
         SendMessage 8 (AttendanceNotice a_preview None) None, Sleep 50])"
    by blast
  with p show ?thesis by simp
qed

text \<open>
  The claim as it was stated fails when a send fails: the first of two recipients is not
  reached, and the attempt for the second follows the log line with no pause before it.
\<close>

theorem pause_after_failed_send_counterexample:
  "emitted (world0\<lparr>gateway_script := (\<lambda>n. if n = 0 then Some network_error else None)\<rparr>)
     (snd (notifyAllUsers [7, 8] a_preview None
            (world0\<lparr>gateway_script := (\<lambda>n. if n = 0 then Some network_error else None)\<rparr>)))
   = [SendMessage 7 (AttendanceNotice a_preview None) (Some network_error),
      ConsoleError (SendError 7 None ''request failed''),
      SendMessage 8 (AttendanceNotice a_preview None) None, Sleep 50]
   \<and> \<not> pause_after_each_attempt
        (emitted (world0\<lparr>gateway_script := (\<lambda>n. if n = 0 then Some network_error else None)\<rparr>)
           (snd (notifyAllUsers [7, 8] a_preview None
             (world0\<lparr>gateway_script := (\<lambda>n. if n = 0 then Some network_error else None)\<rparr>))))"
  by (simp add: two_recipients_first_fails)

subsection \<open>Removal of a recipient that has blocked the bot\<close>

lemma listSubs_subset: "fst (listSubs k w) = Inr xs \<Longrightarrow> set xs \<subseteq> set (kv w k)"
  by (auto simp: listSubs_run split: option.splits)

lemma bind_listSubs_attempts:
  "set (attempts (emitted w (snd (bind_js (listSubs k) (\<lambda>subs. notifyAllUsers subs pv link) w))))
     \<subseteq> set (kv w k)"
proof (cases "kv_script w (kv_calls w)")
  case None
  define w1 where "w1 = w\<lparr>kv_calls := Suc (kv_calls w), trace := trace w @ [KvSmembers k True]\<rparr>"
  have r: "bind_js (listSubs k) (\<lambda>subs. notifyAllUsers subs pv link) w
             = notifyAllUsers (kv w k) pv link w1"
    using None by (simp add: bind_js_def listSubs_run w1_def)
  have e: "extends w w1" by (simp add: extends_def w1_def)
  have "emitted w (snd (notifyAllUsers (kv w k) pv link w1))
          = emitted w w1 @ emitted w1 (snd (notifyAllUsers (kv w k) pv link w1))"
    by (rule emitted_trans[OF e notifyAllUsers_extends])
  moreover have "emitted w w1 = [KvSmembers k True]" by (simp add: emitted_def w1_def)
  ultimately show ?thesis
    by (simp add: r attempts_append attempts_simps notifyAllUsers_attempts)
next
  case (Some e)
  then show ?thesis
    by (simp add: bind_js_def listSubs_run notifyAllUsers_Nil emitted_def attempts_simps)
qed

lemma on_message_attempts:
  "set (attempts (emitted w (snd (on_message ctx w)))) \<subseteq> set (kv w SUBS_ATTENDANCE_KEY)"
proof (cases "(read_opt chat_kind (ctx_chat ctx) = Some Group \<or> read_opt chat_kind (ctx_chat ctx) = Some Supergroup)
               \<and> keyword_detected (ctx_message ctx)")
  case True
  then obtain pv link where "on_message ctx w
           = bind_js (listSubs SUBS_ATTENDANCE_KEY) (\<lambda>subs. notifyAllUsers subs pv link) w"
    using on_message_run by blast
  then show ?thesis using bind_listSubs_attempts by simp
next
  case False
  then have "on_message ctx w = (Inr (), w)" using on_message_skip[of ctx w] by auto
  then show ?thesis by (simp add: emitted_self attempts_simps)
qed

text \<open>
  C2 (as amended). For every recipient whose send attempt fails with the permanent-block
  error code 403, the fan-out engine calls the store's removal on every known subscription
  list. When none of these removal calls fails in the store, the recipient is a member of no
  subscription list once the fan-out is over, is not in the list the adapter returns, and is
  not among the recipients of the next fan-out. A recipient with no attempt that failed
  with code 403 sees no removal: its memberships are what they were.
\<close>

theorem blocked_recipient_is_removed:
  "(\<forall>u p e. SendMessage u p (Some e) \<in> set (emitted w (snd (notifyAllUsers us pv l w)))
        \<and> String_code (code_of e) = ''403'' \<longrightarrow>
        (\<forall>k. \<exists>b. KvSrem k u b \<in> set (emitted w (snd (notifyAllUsers us pv l w))))
        \<and> ((\<forall>k. KvSrem k u False \<notin> set (emitted w (snd (notifyAllUsers us pv l w)))) \<longrightarrow>
              (\<forall>k. u \<notin> set (kv (snd (notifyAllUsers us pv l w)) k))
              \<and> (\<forall>k xs. fst (listSubs k (snd (notifyAllUsers us pv l w))) = Inr xs \<longrightarrow> u \<notin> set xs)
              \<and> (\<forall>ctx. u \<notin> set (attempts (emitted (snd (notifyAllUsers us pv l w))
                                    (snd (on_message ctx (snd (notifyAllUsers us pv l w)))))))))
   \<and> (\<forall>u k. (\<forall>p e. SendMessage u p (Some e) \<in> set (emitted w (snd (notifyAllUsers us pv l w)))
                  \<longrightarrow> String_code (code_of e) \<noteq> ''403'') \<longrightarrow>
          (\<forall>b. KvSrem k u b \<notin> set (emitted w (snd (notifyAllUsers us pv l w))))
          \<and> (u \<in> set (kv (snd (notifyAllUsers us pv l w)) k) \<longleftrightarrow> u \<in> set (kv w k)))"
proof -
  define w' where "w' = snd (notifyAllUsers us pv l w)"
  define T where "T = emitted w w'"
  have kv: "\<And>k. set (kv w' k) = set (kv w k) - {x. KvSrem k x True \<in> set T}"
    unfolding w'_def T_def by (rule notifyAllUsers_kv)
  have inv: "\<And>u p e k. SendMessage u p (Some e) \<in> set T \<Longrightarrow> code_of e = Some 403 \<Longrightarrow>
              \<exists>b. KvSrem k u b \<in> set T"
    unfolding w'_def T_def by (rule notifyAllUsers_removal_invoked)
  have only: "\<And>u k b. KvSrem k u b \<in> set T \<Longrightarrow>
              \<exists>p e. SendMessage u p (Some e) \<in> set T \<and> code_of e = Some 403"
    unfolding w'_def T_def by (rule notifyAllUsers_removal_only)
  have a: "\<forall>u p e. SendMessage u p (Some e) \<in> set T \<and> String_code (code_of e) = ''403'' \<longrightarrow>
        (\<forall>k. \<exists>b. KvSrem k u b \<in> set T)
        \<and> ((\<forall>k. KvSrem k u False \<notin> set T) \<longrightarrow>
              (\<forall>k. u \<notin> set (kv w' k))
              \<and> (\<forall>k xs. fst (listSubs k w') = Inr xs \<longrightarrow> u \<notin> set xs)
              \<and> (\<forall>ctx. u \<notin> set (attempts (emitted w' (snd (on_message ctx w'))))))"
  proof (intro allI impI, elim conjE)
    fix u p e
    assume s: "SendMessage u p (Some e) \<in> set T" and c: "String_code (code_of e) = ''403''"
    from c have c': "code_of e = Some 403" by (simp add: String_code_403)
    have i: "\<forall>k. \<exists>b. KvSrem k u b \<in> set T" using inv[OF s c'] by blast
    have r: "(\<forall>k. KvSrem k u False \<notin> set T) \<longrightarrow>
              (\<forall>k. u \<notin> set (kv w' k))
              \<and> (\<forall>k xs. fst (listSubs k w') = Inr xs \<longrightarrow> u \<notin> set xs)
              \<and> (\<forall>ctx. u \<notin> set (attempts (emitted w' (snd (on_message ctx w')))))"
    proof
      assume nf: "\<forall>k. KvSrem k u False \<notin> set T"
      have m: "\<forall>k. u \<notin> set (kv w' k)"
      proof
        fix k
        from i obtain b where "KvSrem k u b \<in> set T" by blast
        with nf have "KvSrem k u True \<in> set T" by (cases b) auto
        then show "u \<notin> set (kv w' k)" using kv[of k] by simp
      qed
      moreover have "\<forall>k xs. fst (listSubs k w') = Inr xs \<longrightarrow> u \<notin> set xs"
        using m listSubs_subset by blast
      moreover have "\<forall>ctx. u \<notin> set (attempts (emitted w' (snd (on_message ctx w'))))"
        using m on_message_attempts by blast
      ultimately show "(\<forall>k. u \<notin> set (kv w' k))
              \<and> (\<forall>k xs. fst (listSubs k w') = Inr xs \<longrightarrow> u \<notin> set xs)
              \<and> (\<forall>ctx. u \<notin> set (attempts (emitted w' (snd (on_message ctx w')))))"
        by blast
    qed
    from i r show "(\<forall>k. \<exists>b. KvSrem k u b \<in> set T)
        \<and> ((\<forall>k. KvSrem k u False \<notin> set T) \<longrightarrow>
              (\<forall>k. u \<notin> set (kv w' k))
              \<and> (\<forall>k xs. fst (listSubs k w') = Inr xs \<longrightarrow> u \<notin> set xs)
              \<and> (\<forall>ctx. u \<notin> set (attempts (emitted w' (snd (on_message ctx w'))))))"
      by blast
  qed
  have b: "\<forall>u k. (\<forall>p e. SendMessage u p (Some e) \<in> set T \<longrightarrow> String_code (code_of e) \<noteq> ''403'') \<longrightarrow>
          (\<forall>b. KvSrem k u b \<notin> set T) \<and> (u \<in> set (kv w' k) \<longleftrightarrow> u \<in> set (kv w k))"
  proof (intro allI impI)
    fix u k
    assume n: "\<forall>p e. SendMessage u p (Some e) \<in> set T \<longrightarrow> String_code (code_of e) \<noteq> ''403''"
    have nr: "\<forall>b. KvSrem k u b \<notin> set T"
      using only[of k u] n by (auto simp: String_code_403)
    then show "(\<forall>b. KvSrem k u b \<notin> set T) \<and> (u \<in> set (kv w' k) \<longleftrightarrow> u \<in> set (kv w k))"
      using kv[of k] by auto
  qed
  from a b show ?thesis unfolding T_def w'_def by blast
qed

lemma blocked_first_of_two:
  "emitted (world0\<lparr>gateway_script := (\<lambda>n. if n = 0 then Some blocked_error else None)\<rparr>)
     (snd (notifyAllUsers [7, 8] a_preview None
            (world0\<lparr>gateway_script := (\<lambda>n. if n = 0 then Some blocked_error else None)\<rparr>)))
   = [SendMessage 7 (AttendanceNotice a_preview None) (Some blocked_error),
      ConsoleError (SendError 7 (Some 403) ''Forbidden: bot was blocked by the user''),
      KvSrem SUBS_ATTENDANCE_KEY 7 True, KvSrem SUBS_CLASS_KEY 7 True,
      SendMessage 8 (AttendanceNotice a_preview None) None, Sleep 50]"
  by (simp add: run_simps)

text \<open>
  User 7 has blocked the bot and the store works: after the fan-out to users 7 and 8, user 7
  is in neither list and user 8 is where it was.
\<close>

theorem blocked_recipient_is_removed_witness:
  "String_code (code_of blocked_error) = ''403''
   \<and> 7 \<in> set (kv world0 SUBS_ATTENDANCE_KEY) \<and> 7 \<in> set (kv world0 SUBS_CLASS_KEY)
   \<and> 8 \<in> set (kv world0 SUBS_ATTENDANCE_KEY)
   \<and> 7 \<notin> set (kv (snd (notifyAllUsers [7, 8] a_preview None
            (world0\<lparr>gateway_script := (\<lambda>n. if n = 0 then Some blocked_error else None)\<rparr>)))
         SUBS_ATTENDANCE_KEY)
   \<and> 7 \<notin> set (kv (snd (notifyAllUsers [7, 8] a_preview None
            (world0\<lparr>gateway_script := (\<lambda>n. if n = 0 then Some blocked_error else None)\<rparr>)))
         SUBS_CLASS_KEY)
   \<and> 8 \<in> set (kv (snd (notifyAllUsers [7, 8] a_preview None
            (world0\<lparr>gateway_script := (\<lambda>n. if n = 0 then Some blocked_error else None)\<rparr>)))
         SUBS_ATTENDANCE_KEY)"
proof -
  let ?w = "world0\<lparr>gateway_script := (\<lambda>n. if n = 0 then Some blocked_error else None)\<rparr>"
  let ?w' = "snd (notifyAllUsers [7, 8] a_preview None ?w)"
  let ?T = "[SendMessage 7 (AttendanceNotice a_preview None) (Some blocked_error),
      ConsoleError (SendError 7 (Some 403) ''Forbidden: bot was blocked by the user''),
      KvSrem SUBS_ATTENDANCE_KEY 7 True, KvSrem SUBS_CLASS_KEY 7 True,
      SendMessage 8 (AttendanceNotice a_preview None) None, Sleep 50]"
  have c: "String_code (code_of blocked_error) = ''403''"
    by (simp add: String_code_403 code_of_def blocked_error_def)
  have k0: "7 \<in> set (kv ?w SUBS_ATTENDANCE_KEY)" "7 \<in> set (kv ?w SUBS_CLASS_KEY)"
    "8 \<in> set (kv ?w SUBS_ATTENDANCE_KEY)"
    by (simp_all add: world0_def)
  have s: "SendMessage 7 (AttendanceNotice a_preview None) (Some blocked_error) \<in> set ?T" by simp
  have nf: "\<forall>k. KvSrem k 7 False \<notin> set ?T" by simp
  have n8: "\<forall>p e. SendMessage 8 p (Some e) \<in> set ?T \<longrightarrow> String_code (code_of e) \<noteq> ''403''" by simp
  from blocked_recipient_is_removed [of ?w "[7, 8]" a_preview None, unfolded blocked_first_of_two]
    s c nf n8 k0
  have "7 \<notin> set (kv ?w' SUBS_ATTENDANCE_KEY)" "7 \<notin> set (kv ?w' SUBS_CLASS_KEY)"
    "8 \<in> set (kv ?w' SUBS_ATTENDANCE_KEY)"
    by blast+
  with c show ?thesis by (simp add: world0_def)
qed

text \<open>
  The claim as it was stated fails when the store is down: the removal is called on both
  lists, each call fails and is absorbed by the adapter, and the blocked recipient is still a
  member of both lists when the fan-out is over.
\<close>

theorem blocked_recipient_store_down_counterexample:
  "emitted (world0\<lparr>gateway_script := (\<lambda>n. Some blocked_error), kv_script := (\<lambda>n. Some store_error)\<rparr>)
     (snd (notifyAllUsers [7] a_preview None
        (world0\<lparr>gateway_script := (\<lambda>n. Some blocked_error), kv_script := (\<lambda>n. Some store_error)\<rparr>)))
   = [SendMessage 7 (AttendanceNotice a_preview None) (Some blocked_error),
      ConsoleError (SendError 7 (Some 403) ''Forbidden: bot was blocked by the user''),
      KvSrem SUBS_ATTENDANCE_KEY 7 False,
      ConsoleError (KvSubscriptionError SUBS_ATTENDANCE_KEY store_error),
      KvSrem SUBS_CLASS_KEY 7 False,
      ConsoleError (KvSubscriptionError SUBS_CLASS_KEY store_error)]
   \<and> 7 \<in> set (kv (snd (notifyAllUsers [7] a_preview None
        (world0\<lparr>gateway_script := (\<lambda>n. Some blocked_error), kv_script := (\<lambda>n. Some store_error)\<rparr>)))
        SUBS_ATTENDANCE_KEY)
   \<and> 7 \<in> set (kv (snd (notifyAllUsers [7] a_preview None
        (world0\<lparr>gateway_script := (\<lambda>n. Some blocked_error), kv_script := (\<lambda>n. Some store_error)\<rparr>)))
        SUBS_CLASS_KEY)"
  by (simp add: run_simps)

section \<open>The excerpt that the webhook sends\<close>

lemma a_not_space: "\<not> is_space (0x61 :: jschar)" by (simp add: is_space_def)

lemma trigger_word_no_space: "\<forall>x\<in>set trigger_word. \<not> is_space x"
  by (simp add: trigger_word_def is_space_def)

lemma long_text_normalised:
  "collapse_ws long_trigger_text = trigger_word @ [0x20] @ replicate 200 0x61"
proof -
  have "collapse_ws (trigger_word @ [0x20, 0x20] @ replicate 200 0x61)
          = trigger_word @ 0x20 # collapse_ws (replicate 200 0x61)"
    by (rule collapse_ws_run[OF trigger_word_no_space]) (simp_all add: is_space_def)
  then show ?thesis by (simp add: long_trigger_text_def collapse_ws_no_space a_not_space)
qed

lemma long_text_trimmed: "trim long_trigger_text = long_trigger_text"
proof -
  have f: "dropWhile is_space long_trigger_text = long_trigger_text"
    by (simp add: long_trigger_text_def trigger_word_def is_space_def)
  have "rev long_trigger_text = replicate 200 0x61 @ rev (trigger_word @ [0x20, 0x20])"
    by (simp add: long_trigger_text_def)
  moreover have "dropWhile is_space (replicate 200 0x61 @ rev (trigger_word @ [0x20, 0x20]))
      = replicate 200 0x61 @ rev (trigger_word @ [0x20, 0x20])"
    using dropWhile_run[of "[]" "replicate 200 0x61 @ rev (trigger_word @ [0x20, 0x20])"]
    by (simp add: a_not_space)
  ultimately have "rev (dropWhile is_space (rev long_trigger_text)) = long_trigger_text"
    by (metis rev_rev_ident)
  with f show ?thesis by (simp add: trim_def)
qed

lemma long_message_text: "extractText (Some long_trigger_message) = long_trigger_text"
  by (simp add: extractText_def raw_text_def read_opt_def or_else_def long_trigger_message_def
      long_text_trimmed)

lemma long_message_detected: "keyword_detected (Some long_trigger_message)"
proof -
  have "long_trigger_text = [] @ trigger_word @ ([0x20, 0x20] @ replicate 200 0x61)
        \<and> same_word trigger_word trigger_word
        \<and> (([]::jsstring) = [] \<or> \<not> is_word (last []))
        \<and> ([0x20, 0x20] @ replicate 200 0x61 = [] \<or> \<not> is_word (hd ([0x20, 0x20] @ replicate 200 0x61)))"
    by (simp add: long_trigger_text_def same_word_def is_word_def)
  then have "bounded_keyword long_trigger_text" unfolding bounded_keyword_def by blast
  moreover have "raw_text (Some long_trigger_message) = long_trigger_text"
    by (simp add: raw_text_def read_opt_def or_else_def long_trigger_message_def)
  ultimately show ?thesis by (simp add: keyword_detected_iff)
qed

lemma long_webhook:
  "excerpt_webhook long_trigger_text = trigger_word @ [0x20] @ replicate 149 0x61"
  by (simp add: excerpt_webhook_def long_text_normalised) (simp add: trigger_word_def)

lemma long_polling:
  "excerpt_polling long_trigger_text = trigger_word @ [0x20] @ replicate 146 0x61 @ [ellipsis]"
  by (simp add: excerpt_polling_def long_text_normalised) (simp add: trigger_word_def)

lemma long_on_message:
  "emitted world0 (snd (on_message group_update world0))
     = [KvSmembers SUBS_ATTENDANCE_KEY True,
        SendMessage 7 (AttendanceNotice \<lparr>group_name = a_group,
                         excerpt = trigger_word @ [0x20] @ replicate 149 0x61\<rparr>
                       (Some ''https://t.me/grp/42'')) None,
        Sleep 50,
        SendMessage 8 (AttendanceNotice \<lparr>group_name = a_group,
                         excerpt = trigger_word @ [0x20] @ replicate 149 0x61\<rparr>
                       (Some ''https://t.me/grp/42'')) None,
        Sleep 50]"
proof -
  have v: "String_int 42 = ''42''" by (simp add: String_int_def String_nat.simps digit_char_def)
  have l: "buildLink (ctx_chat group_update) 42 = Inr (Some ''https://t.me/grp/42'')"
    by (simp add: group_update_def buildLink_handle v)
  have k: "read_opt chat_kind (ctx_chat group_update) = Some Supergroup"
    "read_prop title (ctx_chat group_update) = Inr None"
    "ctx_message group_update = Some long_trigger_message"
    by (simp_all add: group_update_def read_opt_def read_prop_def)
  have m: "message_id long_trigger_message = 42" by (simp add: long_trigger_message_def)
  have "on_message group_update world0
          = bind_js (listSubs SUBS_ATTENDANCE_KEY)
              (\<lambda>subs. notifyAllUsers subs
                  \<lparr>group_name = a_group, excerpt = trigger_word @ [0x20] @ replicate 149 0x61\<rparr>
                  (Some ''https://t.me/grp/42'')) world0"
    using l by (simp add: on_message_def k m long_message_detected long_message_text
        long_webhook or_else_def Let_def)
  then show ?thesis
    by (simp add: bind_js_def listSubs_run notifyAllUsers_Cons notifyAllUsers_Nil notify_one_run
        emitted_def world0_def)
qed

text \<open>
  C4. The excerpt step first turns runs of white space into single spaces; a normalised text
  of more than 160 code units is to come out as its first 157 code units followed by one
  ellipsis character, 158 in all. The polling bot does this. The webhook does not: for the
  trigger text made of the word \<open>attendance\<close>, two spaces and two hundred letters \<open>a\<close>, which
  the detector accepts and which normalises to 211 code units with one space, the polling bot
  gives the first 157 code units and the ellipsis, while the webhook gives the first 160 code
  units and no ellipsis, and that is the excerpt its handler sends to the subscribers.
\<close>

theorem long_trigger_excerpts:
  "keyword_detected (Some long_trigger_message)
   \<and> extractText (Some long_trigger_message) = long_trigger_text
   \<and> collapse_ws long_trigger_text = trigger_word @ [0x20] @ replicate 200 0x61
   \<and> length (collapse_ws long_trigger_text) = 211
   \<and> excerpt_polling long_trigger_text = take 157 (collapse_ws long_trigger_text) @ [ellipsis]
   \<and> length (excerpt_polling long_trigger_text) = 158
   \<and> excerpt_webhook long_trigger_text = take 160 (collapse_ws long_trigger_text)
   \<and> excerpt_webhook long_trigger_text = trigger_word @ [0x20] @ replicate 149 0x61
   \<and> length (excerpt_webhook long_trigger_text) = 160
   \<and> excerpt_webhook long_trigger_text \<noteq> take 157 (collapse_ws long_trigger_text) @ [ellipsis]
   \<and> emitted world0 (snd (on_message group_update world0))
       = [KvSmembers SUBS_ATTENDANCE_KEY True,
          SendMessage 7 (AttendanceNotice \<lparr>group_name = a_group,
                           excerpt = trigger_word @ [0x20] @ replicate 149 0x61\<rparr>
                         (Some ''https://t.me/grp/42'')) None,
          Sleep 50,
          SendMessage 8 (AttendanceNotice \<lparr>group_name = a_group,
                           excerpt = trigger_word @ [0x20] @ replicate 149 0x61\<rparr>
                         (Some ''https://t.me/grp/42'')) None,
          Sleep 50]"
proof -
  have n: "length (collapse_ws long_trigger_text) = 211"
    by (simp add: long_text_normalised trigger_word_def)
  have p: "excerpt_polling long_trigger_text = take 157 (collapse_ws long_trigger_text) @ [ellipsis]"
    "length (excerpt_polling long_trigger_text) = 158"
    using n by (simp_all add: excerpt_polling_def)
  have w: "excerpt_webhook long_trigger_text = take 160 (collapse_ws long_trigger_text)"
    "length (excerpt_webhook long_trigger_text) = 160"
    using n by (simp_all add: excerpt_webhook_def)
  have "length (take 157 (collapse_ws long_trigger_text) @ [ellipsis]) = 158"
    using n by simp
  with w(2) have d: "excerpt_webhook long_trigger_text
      \<noteq> take 157 (collapse_ws long_trigger_text) @ [ellipsis]"
    by auto
  from long_message_detected long_message_text long_text_normalised n p w long_webhook d
    long_on_message
  show ?thesis by blast
qed

section \<open>Commands and store failures\<close>

subsection \<open>With a healthy gateway every handler returns\<close>

lemma completes_ret: "completes (ret x)"
  by (simp add: completes_def ret_def)

lemma completes_bind: "completes m \<Longrightarrow> (\<And>x. completes (f x)) \<Longrightarrow> completes (bind_js m f)"
  unfolding completes_def bind_js_def
  by (auto split: prod.splits sum.splits)

lemma completes_try: "completes m \<Longrightarrow> completes (try_catch m h)"
  unfolding completes_def try_catch_def
  by (auto split: prod.splits sum.splits)

lemma completes_all2: "completes a \<Longrightarrow> completes b \<Longrightarrow> completes (promise_all2 a b)"
  unfolding completes_def promise_all2_def
  by (auto split: prod.splits sum.splits)

lemma completes_if: "completes a \<Longrightarrow> completes b \<Longrightarrow> completes (if c then a else b)"
  by simp

lemma completes_gateway: "completes (gateway_call ev)"
  by (simp add: completes_def gateway_call_def gateway_ok_def emit_def)

lemma completes_setSub: "completes (setSub k u en)"
  by (simp add: completes_def setSub_run gateway_ok_def split: option.splits)

lemma completes_isSub: "completes (isSub k u)"
  by (auto simp add: completes_def isSub_run gateway_ok_def split: option.splits)

lemmas completes_intros = completes_ret completes_bind completes_try completes_all2 completes_if
  completes_gateway completes_setSub completes_isSub

lemma completes_removeFromAllLists: "completes (removeFromAllLists u)"
  unfolding removeFromAllLists_def by (intro completes_intros)

lemma completes_showMenu: "completes (showMenu ctx b)"
  unfolding showMenu_def getSettings_def editMessageText_def reply_def
  by (intro completes_intros)

lemma completes_handlers:
  "completes (preset_attendance ctx)" "completes (preset_both ctx)"
  "completes (preset_none ctx)" "completes (stop_command ctx)"
  unfolding preset_attendance_def preset_both_def preset_none_def stop_command_def
    answerCbQuery_def reply_def Let_def
  by (intro completes_intros completes_removeFromAllLists completes_showMenu)+

subsection \<open>Class reminders only together with attendance notices\<close>

lemma untouched_ret: "store_untouched (ret x)"
  by (simp add: store_untouched_def ret_def)

lemma untouched_bind:
  "store_untouched m \<Longrightarrow> (\<And>x. store_untouched (f x)) \<Longrightarrow> store_untouched (bind_js m f)"
  unfolding store_untouched_def bind_js_def
  by (auto split: prod.splits sum.splits) (metis snd_conv)+

lemma untouched_try:
  "store_untouched m \<Longrightarrow> (\<And>e. store_untouched (h e)) \<Longrightarrow> store_untouched (try_catch m h)"
  unfolding store_untouched_def try_catch_def
  by (auto split: prod.splits sum.splits) (metis snd_conv)+

lemma untouched_all2:
  "store_untouched a \<Longrightarrow> store_untouched b \<Longrightarrow> store_untouched (promise_all2 a b)"
  unfolding store_untouched_def promise_all2_def
  by (auto split: prod.splits sum.splits) (metis snd_conv)+

lemma untouched_if: "store_untouched a \<Longrightarrow> store_untouched b \<Longrightarrow> store_untouched (if c then a else b)"
  by simp

lemma untouched_gateway: "store_untouched (gateway_call ev)"
  by (simp add: store_untouched_def gateway_call_def emit_def Let_def split: option.splits)

lemma untouched_isSub: "store_untouched (isSub k u)"
  by (simp add: store_untouched_def isSub_run split: option.splits)

lemmas untouched_intros = untouched_ret untouched_bind untouched_try untouched_all2 untouched_if
  untouched_gateway untouched_isSub

lemma untouched_showMenu: "store_untouched (showMenu ctx b)"
  unfolding showMenu_def getSettings_def editMessageText_def reply_def
  by (intro untouched_intros)

lemma untouched_after_change:
  "store_untouched (bind_js (answerCbQuery t) (\<lambda>_. showMenu ctx True))"
  "store_untouched (reply b)"
  unfolding answerCbQuery_def reply_def
  by (intro untouched_intros untouched_showMenu)+

lemma two_setSub:
  "promise_all2 (setSub k1 u e1) (setSub k2 v e2) w
     = (Inr ((), ()), snd (setSub k2 v e2 (snd (setSub k1 u e1 w))))"
  by (simp add: promise_all2_def setSub_run split: prod.splits)

lemma setSub_store_ok:
  assumes "store_ok w"
  shows "kv (snd (setSub k u en w))
           = (kv w)(k := (if en then (if u \<in> set (kv w k) then kv w k else kv w k @ [u])
                          else removeAll u (kv w k)))"
    and "store_ok (snd (setSub k u en w))"
  using assms by (simp_all add: setSub_run store_ok_def)

lemma preset_attendance_kv:
  assumes "store_ok w" "is_private ctx"
  shows "set (kv (snd (preset_attendance ctx w)) SUBS_ATTENDANCE_KEY)
            = insert (from_id ctx) (set (kv w SUBS_ATTENDANCE_KEY))"
    and "set (kv (snd (preset_attendance ctx w)) SUBS_CLASS_KEY)
            = set (kv w SUBS_CLASS_KEY) - {from_id ctx}"
    and "store_ok (snd (preset_attendance ctx w))"
proof -
  let ?w1 = "snd (setSub SUBS_ATTENDANCE_KEY (from_id ctx) True w)"
  let ?w2 = "snd (setSub SUBS_CLASS_KEY (from_id ctx) False ?w1)"
  let ?rest = "bind_js (answerCbQuery ''Attendance reminders enabled.'') (\<lambda>_. showMenu ctx True)"
  have r: "preset_attendance ctx w = ?rest ?w2"
    using assms(2) by (simp add: preset_attendance_def Let_def bind_js_def[of "promise_all2 _ _"] two_setSub)
  have u: "kv (snd (?rest ?w2)) = kv ?w2" "kv_script (snd (?rest ?w2)) = kv_script ?w2"
    using untouched_after_change(1)[of "''Attendance reminders enabled.''" ctx]
    by (simp_all add: store_untouched_def)
  have ok1: "store_ok ?w1" using assms(1) by (rule setSub_store_ok(2))
  have ok2: "store_ok ?w2" using ok1 by (rule setSub_store_ok(2))
  show "set (kv (snd (preset_attendance ctx w)) SUBS_ATTENDANCE_KEY)
            = insert (from_id ctx) (set (kv w SUBS_ATTENDANCE_KEY))"
    unfolding r u by (auto simp: setSub_store_ok(1)[OF ok1] setSub_store_ok(1)[OF assms(1)])
  show "set (kv (snd (preset_attendance ctx w)) SUBS_CLASS_KEY)
            = set (kv w SUBS_CLASS_KEY) - {from_id ctx}"
    unfolding r u by (auto simp: setSub_store_ok(1)[OF ok1] setSub_store_ok(1)[OF assms(1)])
  show "store_ok (snd (preset_attendance ctx w))"
    using ok2 unfolding r store_ok_def u by simp
qed

lemma preset_both_kv:
  assumes "store_ok w" "is_private ctx"
  shows "set (kv (snd (preset_both ctx w)) SUBS_ATTENDANCE_KEY)
            = insert (from_id ctx) (set (kv w SUBS_ATTENDANCE_KEY))"
    and "set (kv (snd (preset_both ctx w)) SUBS_CLASS_KEY)
            = insert (from_id ctx) (set (kv w SUBS_CLASS_KEY))"
    and "store_ok (snd (preset_both ctx w))"
proof -
  let ?w1 = "snd (setSub SUBS_ATTENDANCE_KEY (from_id ctx) True w)"
  let ?w2 = "snd (setSub SUBS_CLASS_KEY (from_id ctx) True ?w1)"
  let ?rest = "bind_js (answerCbQuery ''Attendance + Class reminders enabled.'') (\<lambda>_. showMenu ctx True)"
  have r: "preset_both ctx w = ?rest ?w2"
    using assms(2) by (simp add: preset_both_def Let_def bind_js_def[of "promise_all2 _ _"] two_setSub)
  have u: "kv (snd (?rest ?w2)) = kv ?w2" "kv_script (snd (?rest ?w2)) = kv_script ?w2"
    using untouched_after_change(1)[of "''Attendance + Class reminders enabled.''" ctx]
    by (simp_all add: store_untouched_def)
  have ok1: "store_ok ?w1" using assms(1) by (rule setSub_store_ok(2))
  have ok2: "store_ok ?w2" using ok1 by (rule setSub_store_ok(2))
  show "set (kv (snd (preset_both ctx w)) SUBS_ATTENDANCE_KEY)
            = insert (from_id ctx) (set (kv w SUBS_ATTENDANCE_KEY))"
    unfolding r u by (auto simp: setSub_store_ok(1)[OF ok1] setSub_store_ok(1)[OF assms(1)])
  show "set (kv (snd (preset_both ctx w)) SUBS_CLASS_KEY)
            = insert (from_id ctx) (set (kv w SUBS_CLASS_KEY))"
    unfolding r u by (auto simp: setSub_store_ok(1)[OF ok1] setSub_store_ok(1)[OF assms(1)])
  show "store_ok (snd (preset_both ctx w))"
    using ok2 unfolding r store_ok_def u by simp
qed

lemma removeFromAllLists_store_ok:
  assumes "store_ok w"
  shows "set (kv (snd (removeFromAllLists u w)) k) = set (kv w k) - {u}"
    and "store_ok (snd (removeFromAllLists u w))"
  using assms by (auto simp add: removeFromAllLists_kv removeFromAllLists_frame store_ok_def)

lemma remove_then:
  assumes "store_untouched rest"
  shows "kv (snd (bind_js (removeFromAllLists u) (\<lambda>_. rest) w)) = kv (snd (removeFromAllLists u w))"
    and "kv_script (snd (bind_js (removeFromAllLists u) (\<lambda>_. rest) w))
           = kv_script (snd (removeFromAllLists u w))"
  using assms by (simp_all add: bind_js_def removeFromAllLists_run store_untouched_def)

lemma preset_none_kv:
  assumes "store_ok w" "is_private ctx"
  shows "set (kv (snd (preset_none ctx w)) k) = set (kv w k) - {from_id ctx}"
    and "store_ok (snd (preset_none ctx w))"
  using assms removeFromAllLists_store_ok[OF assms(1), of "from_id ctx"]
    remove_then[OF untouched_after_change(1), of "from_id ctx" "''Reminders disabled.''" ctx w]
  by (simp_all add: preset_none_def store_ok_def)

lemma stop_command_kv:
  assumes "store_ok w" "is_private ctx"
  shows "set (kv (snd (stop_command ctx w)) k) = set (kv w k) - {from_id ctx}"
    and "store_ok (snd (stop_command ctx w))"
  using assms removeFromAllLists_store_ok[OF assms(1), of "from_id ctx"]
    remove_then[OF untouched_after_change(2), of "from_id ctx" StopNotice w]
  by (simp_all add: stop_command_def store_ok_def)

lemma not_private_noop:
  "\<not> is_private ctx \<Longrightarrow> preset_attendance ctx w = (Inr (), w)"
  "\<not> is_private ctx \<Longrightarrow> preset_both ctx w = (Inr (), w)"
  "\<not> is_private ctx \<Longrightarrow> preset_none ctx w = (Inr (), w)"
  "\<not> is_private ctx \<Longrightarrow> stop_command ctx w = (Inr (), w)"
  by (simp_all add: preset_attendance_def preset_both_def preset_none_def stop_command_def ret_def)

lemma step_no_failed_removal:
  "store_ok w \<Longrightarrow> KvSrem k x False \<notin> set (step_events p u w)"
  by (auto simp: step_events_def rm_events_def store_ok_def split: option.splits)

lemma notify_one_store_ok: "store_ok w \<Longrightarrow> store_ok (snd (notify_one p u w))"
  by (simp add: store_ok_def notify_one_frame)

lemma notifyAllUsers_no_failed_removal:
  "store_ok w \<Longrightarrow> KvSrem k x False \<notin> set (emitted w (snd (notifyAllUsers us pv l w)))"
proof (induction us arbitrary: w)
  case Nil
  then show ?case by (simp add: notifyAllUsers_Nil emitted_self)
next
  case (Cons u us)
  show ?case
    unfolding notifyAllUsers_emitted_Cons
    using step_no_failed_removal[OF Cons.prems] Cons.IH[OF notify_one_store_ok[OF Cons.prems]]
    by auto
qed

lemma notifyAllUsers_store_ok: "store_ok w \<Longrightarrow> store_ok (snd (notifyAllUsers us pv l w))"
  by (simp add: store_ok_def notifyAllUsers_frame)

lemma fan_out_keeps_invariant:
  assumes ok: "store_ok w" and inv: "class_within_attendance w"
  shows "class_within_attendance (snd (notifyAllUsers us pv l w))"
proof -
  let ?w' = "snd (notifyAllUsers us pv l w)"
  let ?T = "emitted w ?w'"
  have "u \<in> set (kv ?w' SUBS_ATTENDANCE_KEY)" if u: "u \<in> set (kv ?w' SUBS_CLASS_KEY)" for u
  proof -
    from u have c: "u \<in> set (kv w SUBS_CLASS_KEY)" and n: "KvSrem SUBS_CLASS_KEY u True \<notin> set ?T"
      using notifyAllUsers_kv[of us pv l w SUBS_CLASS_KEY] by auto
    have "KvSrem SUBS_ATTENDANCE_KEY u True \<notin> set ?T"
    proof
      assume "KvSrem SUBS_ATTENDANCE_KEY u True \<in> set ?T"
      then obtain p e where "SendMessage u p (Some e) \<in> set ?T" "code_of e = Some 403"
        using notifyAllUsers_removal_only by blast
      then obtain b where b: "KvSrem SUBS_CLASS_KEY u b \<in> set ?T"
        using notifyAllUsers_removal_invoked by blast
      with notifyAllUsers_no_failed_removal[OF ok, of SUBS_CLASS_KEY u us pv l] have "b = True"
        by (cases b) auto
      with b n show False by simp
    qed
    with c inv show ?thesis
      using notifyAllUsers_kv[of us pv l w SUBS_ATTENDANCE_KEY]
      by (auto simp: class_within_attendance_def)
  qed
  then show ?thesis by (auto simp: class_within_attendance_def)
qed

lemma operation_keeps_invariant:
  assumes ok: "store_ok w" and inv: "class_within_attendance w"
  shows "class_within_attendance (run_operation op w) \<and> store_ok (run_operation op w)"
proof (cases op)
  case (PresetAttendance ctx)
  show ?thesis
  proof (cases "is_private ctx")
    case True
    from preset_attendance_kv[OF ok True] inv show ?thesis
      unfolding PresetAttendance class_within_attendance_def by auto
  next
    case False
    with ok inv show ?thesis by (simp add: PresetAttendance not_private_noop)
  qed
next
  case (PresetBoth ctx)
  show ?thesis
  proof (cases "is_private ctx")
    case True
    from preset_both_kv[OF ok True] inv show ?thesis
      unfolding PresetBoth class_within_attendance_def by auto
  next
    case False
    with ok inv show ?thesis by (simp add: PresetBoth not_private_noop)
  qed
next
  case (PresetNone ctx)
  show ?thesis
  proof (cases "is_private ctx")
    case True
    from preset_none_kv[OF ok True] inv show ?thesis
      unfolding PresetNone class_within_attendance_def by auto
  next
    case False
    with ok inv show ?thesis by (simp add: PresetNone not_private_noop)
  qed
next
  case (StopCommand ctx)
  show ?thesis
  proof (cases "is_private ctx")
    case True
    from stop_command_kv[OF ok True] inv show ?thesis
      unfolding StopCommand class_within_attendance_def by auto
  next
    case False
    with ok inv show ?thesis by (simp add: StopCommand not_private_noop)
  qed
next
  case (FanOut us pv l)
  with fan_out_keeps_invariant[OF ok inv] notifyAllUsers_store_ok[OF ok] show ?thesis by simp
qed

lemma operations_keep_invariant:
  "store_ok w \<Longrightarrow> class_within_attendance w \<Longrightarrow>
   class_within_attendance (run_operations ops w) \<and> store_ok (run_operations ops w)"
proof (induction ops arbitrary: w)
  case Nil
  then show ?case by (simp add: run_operations_def)
next
  case (Cons op ops)
  from operation_keeps_invariant[OF Cons.prems] Cons.IH[of "run_operation op w"]
  show ?case by (simp add: run_operations_def)
qed

text \<open>
  C10 (as amended). As long as no call to the store fails, every change of subscription state
  made by the command handler (the actions \<open>preset:attendance\<close>, \<open>preset:both\<close> and
  \<open>preset:none\<close>, the \<open>/stop\<close> command) and by the removal that an error code 403 triggers
  keeps this invariant: whoever is in the class-reminders list is in the attendance list. So,
  from a state where it holds, no sequence of these operations reaches a state where a user
  has class reminders on and attendance off. The gateway may fail at will.
\<close>

theorem class_reminders_imply_attendance:
  "store_ok w \<and> class_within_attendance w \<longrightarrow>
     class_within_attendance (run_operations ops w)
     \<and> (\<forall>u. \<not> (u \<in> set (kv (run_operations ops w) SUBS_CLASS_KEY)
                \<and> u \<notin> set (kv (run_operations ops w) SUBS_ATTENDANCE_KEY)))
     \<and> class_within_attendance (snd (preset_attendance ctx w))
     \<and> class_within_attendance (snd (preset_both ctx w))
     \<and> class_within_attendance (snd (preset_none ctx w))
     \<and> class_within_attendance (snd (stop_command ctx w))
     \<and> class_within_attendance (snd (notifyAllUsers us pv l w))"
proof
  assume a: "store_ok w \<and> class_within_attendance w"
  then have ok: "store_ok w" and inv: "class_within_attendance w" by simp_all
  have s: "class_within_attendance (run_operations ops w)"
    using operations_keep_invariant[OF ok inv] by simp
  moreover from s have "\<forall>u. \<not> (u \<in> set (kv (run_operations ops w) SUBS_CLASS_KEY)
                \<and> u \<notin> set (kv (run_operations ops w) SUBS_ATTENDANCE_KEY))"
    by (auto simp: class_within_attendance_def)
  moreover have "class_within_attendance (snd (preset_attendance ctx w))"
    using operation_keeps_invariant[OF ok inv, of "PresetAttendance ctx"] by simp
  moreover have "class_within_attendance (snd (preset_both ctx w))"
    using operation_keeps_invariant[OF ok inv, of "PresetBoth ctx"] by simp
  moreover have "class_within_attendance (snd (preset_none ctx w))"
    using operation_keeps_invariant[OF ok inv, of "PresetNone ctx"] by simp
  moreover have "class_within_attendance (snd (stop_command ctx w))"
    using operation_keeps_invariant[OF ok inv, of "StopCommand ctx"] by simp
  moreover have "class_within_attendance (snd (notifyAllUsers us pv l w))"
    using operation_keeps_invariant[OF ok inv, of "FanOut us pv l"] by simp
  ultimately show "class_within_attendance (run_operations ops w)
     \<and> (\<forall>u. \<not> (u \<in> set (kv (run_operations ops w) SUBS_CLASS_KEY)
                \<and> u \<notin> set (kv (run_operations ops w) SUBS_ATTENDANCE_KEY)))
     \<and> class_within_attendance (snd (preset_attendance ctx w))
     \<and> class_within_attendance (snd (preset_both ctx w))
     \<and> class_within_attendance (snd (preset_none ctx w))
     \<and> class_within_attendance (snd (stop_command ctx w))
     \<and> class_within_attendance (snd (notifyAllUsers us pv l w))"
    by blast
qed

lemmas handler_simps = preset_attendance_def preset_both_def preset_none_def stop_command_def
  showMenu_def getSettings_def is_private_def read_opt_def private_chat_of_def
  removeFromAllLists_run setSub_run isSub_run two_setSub
  bind_js_def ret_def try_catch_def promise_all2_def
  answerCbQuery_def editMessageText_def reply_def gateway_call_def emit_def Let_def

lemma blocked_sequence_sets:
  "kv (run_operations [PresetBoth (private_chat_of 9), StopCommand (private_chat_of 7),
                       FanOut [8, 9] a_preview None, PresetAttendance (private_chat_of 9)]
         (world0\<lparr>gateway_script := (\<lambda>n. Some blocked_error)\<rparr>)) SUBS_ATTENDANCE_KEY = [9]
   \<and> kv (run_operations [PresetBoth (private_chat_of 9), StopCommand (private_chat_of 7),
                         FanOut [8, 9] a_preview None, PresetAttendance (private_chat_of 9)]
           (world0\<lparr>gateway_script := (\<lambda>n. Some blocked_error)\<rparr>)) SUBS_CLASS_KEY = []"
  by (simp add: run_operations_def handler_simps throw_def notifyAllUsers_Cons notifyAllUsers_Nil
      notify_one_run world0_def blocked_error_def code_of_def desc_of_def String_code_403)

text \<open>
  The store works and the gateway answers every call with the permanent block. User 9
  chooses attendance and class reminders, user 7 stops, the fan-out to users 8 and 9 gets
  error code 403 for both and removes them from both lists, user 9 goes back to attendance
  only: the invariant holds at the end, with user 9 alone in the attendance list and nobody
  in the class list.
\<close>

theorem class_reminders_imply_attendance_witness:
  "store_ok (world0\<lparr>gateway_script := (\<lambda>n. Some blocked_error)\<rparr>)
   \<and> class_within_attendance (world0\<lparr>gateway_script := (\<lambda>n. Some blocked_error)\<rparr>)
   \<and> class_within_attendance
        (run_operations [PresetBoth (private_chat_of 9), StopCommand (private_chat_of 7),
                         FanOut [8, 9] a_preview None, PresetAttendance (private_chat_of 9)]
           (world0\<lparr>gateway_script := (\<lambda>n. Some blocked_error)\<rparr>))
   \<and> kv (run_operations [PresetBoth (private_chat_of 9), StopCommand (private_chat_of 7),
                         FanOut [8, 9] a_preview None, PresetAttendance (private_chat_of 9)]
           (world0\<lparr>gateway_script := (\<lambda>n. Some blocked_error)\<rparr>)) SUBS_ATTENDANCE_KEY = [9]
   \<and> kv (run_operations [PresetBoth (private_chat_of 9), StopCommand (private_chat_of 7),
                         FanOut [8, 9] a_preview None, PresetAttendance (private_chat_of 9)]
           (world0\<lparr>gateway_script := (\<lambda>n. Some blocked_error)\<rparr>)) SUBS_CLASS_KEY = []"
proof -
  have "store_ok (world0\<lparr>gateway_script := (\<lambda>n. Some blocked_error)\<rparr>)"
    by (simp add: store_ok_def world0_def)
  moreover have "class_within_attendance (world0\<lparr>gateway_script := (\<lambda>n. Some blocked_error)\<rparr>)"
    by (simp add: class_within_attendance_def world0_def)
  ultimately show ?thesis
    using class_reminders_imply_attendance [of "world0\<lparr>gateway_script := (\<lambda>n. Some blocked_error)\<rparr>"
        "[PresetBoth (private_chat_of 9), StopCommand (private_chat_of 7),
          FanOut [8, 9] a_preview None, PresetAttendance (private_chat_of 9)]"]
      blocked_sequence_sets
    by blast
qed

text \<open>
  The claim as it was stated fails when the store fails in part: user 7 has both kinds of
  reminders and sends \<open>/stop\<close>; the removal from the attendance list succeeds, the removal
  from the class list fails and is absorbed, and user 7 is left with class reminders on and
  attendance off.
\<close>

theorem class_without_attendance_counterexample:
  "class_within_attendance (world0\<lparr>kv_script := (\<lambda>n. if n = 1 then Some store_error else None)\<rparr>)
   \<and> kv (snd (stop_command (private_chat_of 7)
               (world0\<lparr>kv_script := (\<lambda>n. if n = 1 then Some store_error else None)\<rparr>)))
        SUBS_ATTENDANCE_KEY = [8]
   \<and> kv (snd (stop_command (private_chat_of 7)
               (world0\<lparr>kv_script := (\<lambda>n. if n = 1 then Some store_error else None)\<rparr>)))
        SUBS_CLASS_KEY = [7]
   \<and> \<not> class_within_attendance
        (snd (stop_command (private_chat_of 7)
               (world0\<lparr>kv_script := (\<lambda>n. if n = 1 then Some store_error else None)\<rparr>)))"
  by (simp add: class_within_attendance_def handler_simps world0_def)

subsection \<open>The adapter absorbs the failures of the store\<close>

lemma adapter_emitted:
  "emitted w (snd (setSub key u en w)) =
     (case kv_script w (kv_calls w) of
        None \<Rightarrow> [if en then KvSadd key u True else KvSrem key u True]
      | Some e \<Rightarrow> [if en then KvSadd key u False else KvSrem key u False,
                   ConsoleError (KvSubscriptionError key e)])"
  "emitted w (snd (isSub key u w)) =
     (case kv_script w (kv_calls w) of
        None \<Rightarrow> [KvSismember key u True]
      | Some e \<Rightarrow> [KvSismember key u False, ConsoleError (KvSismemberError key e)])"
  "emitted w (snd (listSubs key w)) =
     (case kv_script w (kv_calls w) of
        None \<Rightarrow> [KvSmembers key True]
      | Some e \<Rightarrow> [KvSmembers key False, ConsoleError (KvSmembersError key e)])"
  by (simp_all add: emitted_def setSub_run isSub_run listSubs_run split: option.splits)

lemma removeFromAllLists_emitted: "emitted w (snd (removeFromAllLists u w)) = rm_events u w"
  by (simp add: emitted_def removeFromAllLists_trace)

lemma rm_events_every_list: "\<exists>b. KvSrem k u b \<in> set (rm_events u w)"
  by (cases k) (auto simp: rm_events_def split: option.splits)

text \<open>
  C9. No operation of the subscriber-store adapter lets a failure of the store out: \<open>setSub\<close>
  (add and remove), \<open>isSub\<close> and \<open>listSubs\<close> always return; when the call to the store
  fails they log it and the sets stay as they were, \<open>isSub\<close> answers false and \<open>listSubs\<close>
  the empty list. \<open>removeFromAllLists\<close> calls the removal on both lists whatever the first
  call does. Hence the fan-out and the message handler always return, and with a healthy
  gateway so does every command handler, whatever the store does.
\<close>

theorem store_failures_are_absorbed:
  "fst (setSub key u en w) = Inr ()
   \<and> (\<exists>b. fst (isSub key u w) = Inr b)
   \<and> (\<exists>xs. fst (listSubs key w) = Inr xs)
   \<and> (kv_script w (kv_calls w) = Some e \<longrightarrow>
        kv (snd (setSub key u en w)) = kv w
        \<and> fst (isSub key u w) = Inr False
        \<and> fst (listSubs key w) = Inr []
        \<and> ConsoleError (KvSubscriptionError key e) \<in> set (emitted w (snd (setSub key u en w)))
        \<and> ConsoleError (KvSismemberError key e) \<in> set (emitted w (snd (isSub key u w)))
        \<and> ConsoleError (KvSmembersError key e) \<in> set (emitted w (snd (listSubs key w))))
   \<and> fst (removeFromAllLists u w) = Inr ()
   \<and> (\<forall>k. \<exists>b. KvSrem k u b \<in> set (emitted w (snd (removeFromAllLists u w))))
   \<and> (kv_script w (kv_calls w) = Some e \<and> kv_script w (Suc (kv_calls w)) = None \<longrightarrow>
        KvSrem SUBS_ATTENDANCE_KEY u False \<in> set (emitted w (snd (removeFromAllLists u w)))
        \<and> KvSrem SUBS_CLASS_KEY u True \<in> set (emitted w (snd (removeFromAllLists u w)))
        \<and> u \<notin> set (kv (snd (removeFromAllLists u w)) SUBS_CLASS_KEY))
   \<and> fst (notifyAllUsers us pv l w) = Inr ()
   \<and> fst (on_message ctx w) = Inr ()
   \<and> (gateway_ok w \<longrightarrow>
        fst (preset_attendance ctx w) = Inr () \<and> fst (preset_both ctx w) = Inr ()
        \<and> fst (preset_none ctx w) = Inr () \<and> fst (stop_command ctx w) = Inr ()
        \<and> fst (showMenu ctx pe w) = Inr ())"
proof (intro conjI)
  show "fst (setSub key u en w) = Inr ()" by (simp add: setSub_run)
  show "\<exists>b. fst (isSub key u w) = Inr b" by (auto simp: isSub_run split: option.splits)
  show "\<exists>xs. fst (listSubs key w) = Inr xs" by (auto simp: listSubs_run split: option.splits)
  show "kv_script w (kv_calls w) = Some e \<longrightarrow>
        kv (snd (setSub key u en w)) = kv w
        \<and> fst (isSub key u w) = Inr False
        \<and> fst (listSubs key w) = Inr []
        \<and> ConsoleError (KvSubscriptionError key e) \<in> set (emitted w (snd (setSub key u en w)))
        \<and> ConsoleError (KvSismemberError key e) \<in> set (emitted w (snd (isSub key u w)))
        \<and> ConsoleError (KvSmembersError key e) \<in> set (emitted w (snd (listSubs key w)))"
    by (simp add: adapter_emitted) (simp add: setSub_run isSub_run listSubs_run)
  show "fst (removeFromAllLists u w) = Inr ()" by (simp add: removeFromAllLists_run)
  show "\<forall>k. \<exists>b. KvSrem k u b \<in> set (emitted w (snd (removeFromAllLists u w)))"
    by (simp add: removeFromAllLists_emitted rm_events_every_list)
  show "kv_script w (kv_calls w) = Some e \<and> kv_script w (Suc (kv_calls w)) = None \<longrightarrow>
        KvSrem SUBS_ATTENDANCE_KEY u False \<in> set (emitted w (snd (removeFromAllLists u w)))
        \<and> KvSrem SUBS_CLASS_KEY u True \<in> set (emitted w (snd (removeFromAllLists u w)))
        \<and> u \<notin> set (kv (snd (removeFromAllLists u w)) SUBS_CLASS_KEY)"
    by (simp add: removeFromAllLists_emitted rm_events_def removeFromAllLists_kv)
  show "fst (notifyAllUsers us pv l w) = Inr ()" by (rule notifyAllUsers_returns)
  show "fst (on_message ctx w) = Inr ()" by (rule on_message_returns)
  show "gateway_ok w \<longrightarrow>
        fst (preset_attendance ctx w) = Inr () \<and> fst (preset_both ctx w) = Inr ()
        \<and> fst (preset_none ctx w) = Inr () \<and> fst (stop_command ctx w) = Inr ()
        \<and> fst (showMenu ctx pe w) = Inr ()"
    using completes_handlers[of ctx] completes_showMenu[of ctx pe]
    unfolding completes_def by auto
qed

text \<open>
  The store is down and the gateway works: user 7 sends \<open>/stop\<close>. Both removals fail, the
  handler still returns and answers, and user 7 stays in both lists.
\<close>

theorem store_failures_are_absorbed_witness:
  "kv_script (world0\<lparr>kv_script := (\<lambda>n. Some store_error)\<rparr>)
      (kv_calls (world0\<lparr>kv_script := (\<lambda>n. Some store_error)\<rparr>)) = Some store_error
   \<and> gateway_ok (world0\<lparr>kv_script := (\<lambda>n. Some store_error)\<rparr>)
   \<and> fst (stop_command (private_chat_of 7) (world0\<lparr>kv_script := (\<lambda>n. Some store_error)\<rparr>)) = Inr ()
   \<and> fst (listSubs SUBS_ATTENDANCE_KEY (world0\<lparr>kv_script := (\<lambda>n. Some store_error)\<rparr>)) = Inr []
   \<and> fst (isSub SUBS_ATTENDANCE_KEY 7 (world0\<lparr>kv_script := (\<lambda>n. Some store_error)\<rparr>)) = Inr False
   \<and> kv (snd (setSub SUBS_ATTENDANCE_KEY 7 False (world0\<lparr>kv_script := (\<lambda>n. Some store_error)\<rparr>)))
        SUBS_ATTENDANCE_KEY = [7, 8]"
proof -
  let ?w = "world0\<lparr>kv_script := (\<lambda>n. Some store_error)\<rparr>"
  have a: "kv_script ?w (kv_calls ?w) = Some store_error" by simp
  have g: "gateway_ok ?w" by (simp add: gateway_ok_def world0_def)
  from store_failures_are_absorbed [of SUBS_ATTENDANCE_KEY 7 False ?w store_error _ _ _
      "private_chat_of 7"] a g
  have "fst (stop_command (private_chat_of 7) ?w) = Inr ()"
    "fst (listSubs SUBS_ATTENDANCE_KEY ?w) = Inr []"
    "fst (isSub SUBS_ATTENDANCE_KEY 7 ?w) = Inr False"
    "kv (snd (setSub SUBS_ATTENDANCE_KEY 7 False ?w)) = kv ?w"
    by blast+
  with a g show ?thesis by (simp add: world0_def)
qed

section \<open>The scheduled reminder\<close>

lemma schedule_names: "CLASS_SCHEDULE_BY_GMT5_DAY d = Some cn \<Longrightarrow> cn \<noteq> []"
  by (auto simp: CLASS_SCHEDULE_BY_GMT5_DAY_def split: if_splits)

lemma schedule_days: "CLASS_SCHEDULE_BY_GMT5_DAY d \<noteq> None \<longleftrightarrow> d \<in> {1, 2, 3, 4}"
  by (auto simp: CLASS_SCHEDULE_BY_GMT5_DAY_def)

lemma monday_parts: "getGmt5Parts (now monday_1825) = (1, 18, 25)"
  by (simp add: getGmt5Parts_def nowInGmt5_def monday_1825_def)

lemma handler_skips:
  assumes g: "guards_pass req" and p: "getGmt5Parts (now req) = (d, h, m)"
  shows "CLASS_SCHEDULE_BY_GMT5_DAY d = None \<Longrightarrow>
           class_reminders_handler req w = (Inr (SkippedNoClass d), w)"
    and "\<not> forced req \<Longrightarrow> CLASS_SCHEDULE_BY_GMT5_DAY d = Some cn \<Longrightarrow>
           \<bar>h * 60 + m - (18 * 60 + 25)\<bar> > 1 \<Longrightarrow>
           class_reminders_handler req w = (Inr (SkippedWrongTime d h m), w)"
  using g p schedule_names[of d cn]
  by (auto simp: class_reminders_handler_def class_reminders_body_def guards_pass_def forced_def
      try_catch_def ret_def truthy_str_def Let_def CLASS_REMINDER_HOUR_GMT5_def
      CLASS_REMINDER_MINUTE_GMT5_def)

lemma handler_proceeds:
  assumes g: "guards_pass req" and p: "getGmt5Parts (now req) = (d, h, m)"
    and s: "CLASS_SCHEDULE_BY_GMT5_DAY d = Some cn"
    and t: "forced req \<or> \<bar>h * 60 + m - (18 * 60 + 25)\<bar> \<le> 1"
  shows "class_reminders_handler req w =
           try_catch
             (bind_js (kv_smembers SUBS_CLASS_KEY)
                (\<lambda>userIds.
                   bind_js (fold_js (remind_one (cn @ '' class starts in 5 mins''))
                              \<lparr>sent = 0, removed = 0, failed = 0\<rparr> userIds)
                     (\<lambda>c. ret (Executed \<lparr>res_day = d, res_hour = h, res_minute = m,
                                          res_className = cn, res_total = length userIds,
                                          res_counts = c\<rparr>))))
             (\<lambda>err. bind_js (console_error (HandlerError (err_message err)))
                      (\<lambda>_. ret (ErrorResponse (if err_message err = [] then ''unknown error''
                                                 else err_message err)))) w"
  using g p s t schedule_names[OF s]
  by (auto simp: class_reminders_handler_def class_reminders_body_def guards_pass_def forced_def
      truthy_str_def template_str_def Let_def CLASS_REMINDER_HOUR_GMT5_def
      CLASS_REMINDER_MINUTE_GMT5_def try_catch_def)

lemma handler_executes:
  assumes g: "guards_pass req" and p: "getGmt5Parts (now req) = (d, h, m)"
    and s: "CLASS_SCHEDULE_BY_GMT5_DAY d = Some cn"
    and t: "forced req \<or> \<bar>h * 60 + m - (18 * 60 + 25)\<bar> \<le> 1"
    and k: "kv_script w (kv_calls w) = None"
  shows "\<exists>c. fst (class_reminders_handler req w)
           = Inr (Executed \<lparr>res_day = d, res_hour = h, res_minute = m, res_className = cn,
                            res_total = length (kv w SUBS_CLASS_KEY), res_counts = c\<rparr>)"
proof -
  define w1 where "w1 = w\<lparr>kv_calls := Suc (kv_calls w), trace := trace w @ [KvSmembers SUBS_CLASS_KEY True]\<rparr>"
  have r: "kv_smembers SUBS_CLASS_KEY w = (Inr (kv w SUBS_CLASS_KEY), w1)"
    using k by (simp add: kv_smembers_def kv_call_def emit_def w1_def)
  obtain c where c: "fst (fold_js (remind_one (cn @ '' class starts in 5 mins''))
                       \<lparr>sent = 0, removed = 0, failed = 0\<rparr> (kv w SUBS_CLASS_KEY) w1) = Inr c"
    using reminder_loop by blast
  show ?thesis
    unfolding handler_proceeds[OF g p s t]
    using r c
    by (cases "fold_js (remind_one (cn @ '' class starts in 5 mins''))
                       \<lparr>sent = 0, removed = 0, failed = 0\<rparr> (kv w SUBS_CLASS_KEY) w1")
       (auto simp: try_catch_def bind_js_def ret_def)
qed

lemma handler_store_failure:
  assumes g: "guards_pass req" and p: "getGmt5Parts (now req) = (d, h, m)"
    and s: "CLASS_SCHEDULE_BY_GMT5_DAY d = Some cn"
    and t: "forced req \<or> \<bar>h * 60 + m - (18 * 60 + 25)\<bar> \<le> 1"
    and k: "kv_script w (kv_calls w) = Some e"
  shows "fst (class_reminders_handler req w)
           = Inr (ErrorResponse (if err_message e = [] then ''unknown error'' else err_message e))"
  unfolding handler_proceeds[OF g p s t]
  using k by (simp add: try_catch_def bind_js_def ret_def kv_smembers_def kv_call_def emit_def
      console_error_def)

lemma handler_returns: "\<exists>r. fst (class_reminders_handler req w) = Inr r"
  by (cases "class_reminders_body req w"; cases "fst (class_reminders_body req w)")
     (auto simp: class_reminders_handler_def try_catch_def bind_js_def console_error_def ret_def)

lemma handler_unauthorized:
  "truthy_str (env_BOT_TOKEN req) \<Longrightarrow> truthy_str (env_KV_REST_API_URL req) \<Longrightarrow>
   truthy_str (env_KV_REST_API_TOKEN req) \<Longrightarrow> truthy_str (env_CRON_SECRET req) \<Longrightarrow>
   query_secret req \<noteq> env_CRON_SECRET req \<Longrightarrow>
   class_reminders_handler req w = (Inr Unauthorized, w)"
  by (simp add: class_reminders_handler_def class_reminders_body_def try_catch_def ret_def Let_def)

text \<open>
  C5 (as amended). Take an invocation of the scheduled reminder that passes the handler's
  guards (bot token and store environment set, secret right when one is configured), and let
  the weekday, hour and minute be those of the instant in GMT+5. With the override flag
  unset: a weekday without entry in the schedule gives the skipped-no-class outcome; a weekday
  with an entry at an hour and minute more than one minute away from 18:25 gives the
  skipped-wrong-time outcome; a weekday with an entry within one minute of 18:25 (at 18:25
  in particular) gives an executed outcome whose class name is the entry of the weekday,
  provided the read of the class-reminder list from the store succeeds, and the error
  outcome when that read fails. With the override flag set the time is not checked: the
  outcome depends on the weekday and the store only. The handler always returns an outcome.
\<close>

theorem scheduled_trigger_outcomes:
  "(\<exists>r. fst (class_reminders_handler req w) = Inr r)
   \<and> (guards_pass req \<and> getGmt5Parts (now req) = (d, h, m) \<longrightarrow>
        (CLASS_SCHEDULE_BY_GMT5_DAY d = None \<longrightarrow>
           fst (class_reminders_handler req w) = Inr (SkippedNoClass d))
        \<and> (\<not> forced req \<and> CLASS_SCHEDULE_BY_GMT5_DAY d = Some cn
             \<and> \<bar>h * 60 + m - (18 * 60 + 25)\<bar> > 1 \<longrightarrow>
           fst (class_reminders_handler req w) = Inr (SkippedWrongTime d h m))
        \<and> (\<not> forced req \<and> CLASS_SCHEDULE_BY_GMT5_DAY d = Some cn
             \<and> \<bar>h * 60 + m - (18 * 60 + 25)\<bar> \<le> 1 \<and> kv_script w (kv_calls w) = None \<longrightarrow>
           (\<exists>c. fst (class_reminders_handler req w)
                  = Inr (Executed \<lparr>res_day = d, res_hour = h, res_minute = m, res_className = cn,
                                   res_total = length (kv w SUBS_CLASS_KEY), res_counts = c\<rparr>)))
        \<and> (forced req \<and> CLASS_SCHEDULE_BY_GMT5_DAY d = Some cn
             \<and> kv_script w (kv_calls w) = None \<longrightarrow>
           (\<exists>c. fst (class_reminders_handler req w)
                  = Inr (Executed \<lparr>res_day = d, res_hour = h, res_minute = m, res_className = cn,
                                   res_total = length (kv w SUBS_CLASS_KEY), res_counts = c\<rparr>)))
        \<and> ((forced req \<or> \<bar>h * 60 + m - (18 * 60 + 25)\<bar> \<le> 1)
             \<and> CLASS_SCHEDULE_BY_GMT5_DAY d = Some cn \<and> kv_script w (kv_calls w) = Some e \<longrightarrow>
           fst (class_reminders_handler req w)
             = Inr (ErrorResponse (if err_message e = [] then ''unknown error''
                                   else err_message e))))"
proof (intro conjI impI)
  show "\<exists>r. fst (class_reminders_handler req w) = Inr r" by (rule handler_returns)
next
  assume "guards_pass req \<and> getGmt5Parts (now req) = (d, h, m)"
    and "CLASS_SCHEDULE_BY_GMT5_DAY d = None"
  then show "fst (class_reminders_handler req w) = Inr (SkippedNoClass d)"
    using handler_skips(1)[of req d h m w] by simp
next
  assume "guards_pass req \<and> getGmt5Parts (now req) = (d, h, m)"
    and "\<not> forced req \<and> CLASS_SCHEDULE_BY_GMT5_DAY d = Some cn
         \<and> \<bar>h * 60 + m - (18 * 60 + 25)\<bar> > 1"
  then show "fst (class_reminders_handler req w) = Inr (SkippedWrongTime d h m)"
    using handler_skips(2)[of req d h m cn w] by simp
next
  assume "guards_pass req \<and> getGmt5Parts (now req) = (d, h, m)"
    and "\<not> forced req \<and> CLASS_SCHEDULE_BY_GMT5_DAY d = Some cn
         \<and> \<bar>h * 60 + m - (18 * 60 + 25)\<bar> \<le> 1 \<and> kv_script w (kv_calls w) = None"
  then show "\<exists>c. fst (class_reminders_handler req w)
                  = Inr (Executed \<lparr>res_day = d, res_hour = h, res_minute = m, res_className = cn,
                                   res_total = length (kv w SUBS_CLASS_KEY), res_counts = c\<rparr>)"
    by (intro handler_executes) simp_all
next
  assume "guards_pass req \<and> getGmt5Parts (now req) = (d, h, m)"
    and "forced req \<and> CLASS_SCHEDULE_BY_GMT5_DAY d = Some cn \<and> kv_script w (kv_calls w) = None"
  then show "\<exists>c. fst (class_reminders_handler req w)
                  = Inr (Executed \<lparr>res_day = d, res_hour = h, res_minute = m, res_className = cn,
                                   res_total = length (kv w SUBS_CLASS_KEY), res_counts = c\<rparr>)"
    by (intro handler_executes) simp_all
next
  assume "guards_pass req \<and> getGmt5Parts (now req) = (d, h, m)"
    and "(forced req \<or> \<bar>h * 60 + m - (18 * 60 + 25)\<bar> \<le> 1)
         \<and> CLASS_SCHEDULE_BY_GMT5_DAY d = Some cn \<and> kv_script w (kv_calls w) = Some e"
  then show "fst (class_reminders_handler req w)
             = Inr (ErrorResponse (if err_message e = [] then ''unknown error''
                                   else err_message e))"
    by (intro handler_store_failure[of req d h m cn]) simp_all
qed

text \<open>
  Monday at 18:25 GMT+5 with healthy services: the reminder for the Monday class is executed
  for the one subscriber of the class list.
\<close>

theorem scheduled_trigger_outcomes_witness:
  "guards_pass monday_1825 \<and> getGmt5Parts (now monday_1825) = (1, 18, 25)
   \<and> \<not> forced monday_1825
   \<and> CLASS_SCHEDULE_BY_GMT5_DAY 1 = Some ''Database Design Concepts''
   \<and> kv_script world0 (kv_calls world0) = None
   \<and> (\<exists>c. fst (class_reminders_handler monday_1825 world0)
            = Inr (Executed \<lparr>res_day = 1, res_hour = 18, res_minute = 25,
                             res_className = ''Database Design Concepts'',
                             res_total = 1, res_counts = c\<rparr>))"
proof -
  have g: "guards_pass monday_1825"
    by (simp add: guards_pass_def monday_1825_def truthy_str_def)
  have f: "\<not> forced monday_1825" by (simp add: forced_def monday_1825_def)
  have s: "CLASS_SCHEDULE_BY_GMT5_DAY 1 = Some ''Database Design Concepts''"
    by (simp add: CLASS_SCHEDULE_BY_GMT5_DAY_def)
  have k: "kv_script world0 (kv_calls world0) = None" by (simp add: world0_def)
  have t: "\<bar>(18::int) * 60 + 25 - (18 * 60 + 25)\<bar> \<le> 1" by simp
  have l: "length (kv world0 SUBS_CLASS_KEY) = 1" by (simp add: world0_def)
  from scheduled_trigger_outcomes [of monday_1825 world0 1 18 25 "''Database Design Concepts''"]
    g f s k t monday_parts
  have "\<exists>c. fst (class_reminders_handler monday_1825 world0)
            = Inr (Executed \<lparr>res_day = 1, res_hour = 18, res_minute = 25,
                             res_className = ''Database Design Concepts'',
                             res_total = length (kv world0 SUBS_CLASS_KEY), res_counts = c\<rparr>)"
    by blast
  with g f s k monday_parts l show ?thesis by simp
qed

text \<open>
  The claim as it was stated fails at the target time of a class day in two ways: when the
  store cannot be read the outcome is the error outcome, and when a secret is configured and
  the caller does not send it the outcome is the unauthorised one.
\<close>

theorem scheduled_trigger_counterexample:
  "getGmt5Parts (now monday_1825) = (1, 18, 25)
   \<and> CLASS_SCHEDULE_BY_GMT5_DAY 1 = Some ''Database Design Concepts''
   \<and> \<not> forced monday_1825
   \<and> fst (class_reminders_handler monday_1825 (world0\<lparr>kv_script := (\<lambda>n. Some store_error)\<rparr>))
       = Inr (ErrorResponse ''store unreachable'')
   \<and> fst (class_reminders_handler (monday_1825\<lparr>env_CRON_SECRET := Some ''s3cret''\<rparr>) world0)
       = Inr Unauthorized"
proof -
  have g: "guards_pass monday_1825"
    by (simp add: guards_pass_def monday_1825_def truthy_str_def)
  have s: "CLASS_SCHEDULE_BY_GMT5_DAY 1 = Some ''Database Design Concepts''"
    by (simp add: CLASS_SCHEDULE_BY_GMT5_DAY_def)
  have e: "fst (class_reminders_handler monday_1825 (world0\<lparr>kv_script := (\<lambda>n. Some store_error)\<rparr>))
       = Inr (ErrorResponse ''store unreachable'')"
    using handler_store_failure[OF g monday_parts s, of "world0\<lparr>kv_script := (\<lambda>n. Some store_error)\<rparr>" store_error]
    by (simp add: store_error_def)
  have u: "fst (class_reminders_handler (monday_1825\<lparr>env_CRON_SECRET := Some ''s3cret''\<rparr>) world0)
       = Inr Unauthorized"
    by (subst handler_unauthorized) (simp_all add: monday_1825_def truthy_str_def)
  show ?thesis
    using e u s monday_parts by (simp add: forced_def monday_1825_def)
qed


end
